theory Spec2Isabelle
  imports Main "HOL-Library.Word"
begin

section \<open>Outcomes of a call made by a goroutine\<close>

text \<open>
  The three packages block, panic and terminate goroutines. What a call does to the
  goroutine that makes it is a value:
  \<^item> \<open>Blocked\<close>: the call has not returned (it waits on a channel, a WaitGroup or \<open>select {}\<close>);
  \<^item> \<open>Returns x\<close>: the call returns \<open>x\<close>;
  \<^item> \<open>Panics e\<close>: \<open>panic(e)\<close> unwinds the calling goroutine;
  \<^item> \<open>GoPanics e\<close>: \<open>go panic(e)\<close> raises the panic in a fresh goroutine and the calling
    goroutine parks in \<open>select {}\<close>;
  \<^item> \<open>Goexits\<close>: the calling goroutine terminates through \<open>runtime.Goexit\<close>.
\<close>

datatype ('a, 'x) fate = Blocked | Returns 'a | Panics 'x | GoPanics 'x | Goexits

section \<open>semaphore: the weighted semaphore\<close>

type_synonym int64 = "64 word"
type_synonym chan = nat

text \<open>
  A waiter holds the requested weight \<open>n\<close> and its \<open>ready\<close> channel. Channels are heap
  objects: a channel is its address, and the heap records which channels were closed.
\<close>

record waiter =
  n_w :: int64
  ready :: chan

text \<open>
  \<open>Weighted\<close>: \<open>size\<close>, \<open>cur\<close> and the list of waiters (front first). The mutex is not a
  field: every function below is one critical section, run atomically. The last two
  fields are the channel heap: the closed channels and the next address \<open>make\<close> returns.
\<close>

record Weighted =
  size_s :: int64
  cur :: int64
  waiters :: "waiter list"
  closed :: "chan set"
  nchan :: chan

definition NewWeighted :: "int64 \<Rightarrow> Weighted" where
  "NewWeighted k = \<lparr>size_s = k, cur = 0, waiters = [], closed = {}, nchan = 0\<rparr>"

text \<open>
  \<open>notifyWaiters\<close>: the loop takes the front waiter; when \<open>size - cur < w.n\<close> (signed,
  on wrapping 64-bit integers) it breaks, otherwise it adds the weight to \<open>cur\<close>, removes
  the waiter and closes its channel.
\<close>

function notifyWaiters :: "Weighted \<Rightarrow> Weighted" where
  "notifyWaiters s =
     (case waiters s of
        [] \<Rightarrow> s
      | w # ws \<Rightarrow>
          if size_s s - cur s <s n_w w then s
          else notifyWaiters
                 (s\<lparr>cur := cur s + n_w w, waiters := ws, closed := insert (ready w) (closed s)\<rparr>))"
  by pat_completeness auto
termination
  by (relation "measure (\<lambda>s. length (waiters s))") auto

declare notifyWaiters.simps [simp del]

text \<open>\<open>TryAcquire\<close>: the success flag and the state after the call.\<close>

definition TryAcquire :: "int64 \<Rightarrow> Weighted \<Rightarrow> bool \<times> Weighted" where
  "TryAcquire k s =
     (let success = (k \<le>s size_s s - cur s \<and> length (waiters s) = 0)
      in (success, if success then s\<lparr>cur := cur s + k\<rparr> else s))"

text \<open>
  \<open>Release\<close>: subtracts, panics when \<open>cur\<close> went negative, otherwise notifies the waiters.
\<close>

definition Release :: "int64 \<Rightarrow> Weighted \<Rightarrow> (Weighted, string) fate" where
  "Release k s =
     (let s1 = s\<lparr>cur := cur s - k\<rparr>
      in if cur s1 <s 0 then Panics ''semaphore: released more than held''
         else Returns (notifyWaiters s1))"

text \<open>
  \<open>Acquire\<close>, first critical section (up to the first \<open>Unlock\<close>): the fast path grants,
  a request above \<open>size\<close> is doomed and leaves the lock without queueing, any other
  request is pushed to the back of the queue with a fresh \<open>ready\<close> channel.
\<close>

datatype acquire_step = Acquired | Doomed | Queued chan

definition Acquire_lock :: "int64 \<Rightarrow> Weighted \<Rightarrow> acquire_step \<times> Weighted" where
  "Acquire_lock k s =
     (if k \<le>s size_s s - cur s \<and> length (waiters s) = 0
      then (Acquired, s\<lparr>cur := cur s + k\<rparr>)
      else if size_s s <s k then (Doomed, s)
      else (Queued (nchan s),
            s\<lparr>waiters := waiters s @ [\<lparr>n_w = k, ready = nchan s\<rparr>], nchan := Suc (nchan s)\<rparr>))"

text \<open>
  \<open>list.Remove(elem)\<close>: the element is identified by its \<open>ready\<close> channel; removing an
  element that is not in the list changes nothing.
\<close>

fun Remove :: "chan \<Rightarrow> waiter list \<Rightarrow> waiter list" where
  "Remove r [] = []"
| "Remove r (w # ws) = (if ready w = r then ws else w # Remove r ws)"

text \<open>
  The \<open>ctx.Done()\<close> branch of the \<open>select\<close>, from \<open>s.mu.Lock()\<close> to the return: \<open>e\<close> is
  \<open>ctx.Err()\<close>. The result is the returned error (\<open>None\<close> is nil) and the state.
\<close>

definition Acquire_cancel :: "'e \<Rightarrow> chan \<Rightarrow> Weighted \<Rightarrow> 'e option \<times> Weighted" where
  "Acquire_cancel e r s =
     (if r \<in> closed s then (None, s)
      else
        let isFront = (case waiters s of [] \<Rightarrow> False | w # _ \<Rightarrow> ready w = r);
            s1 = s\<lparr>waiters := Remove r (waiters s)\<rparr>
        in (Some e, if isFront \<and> cur s1 <s size_s s1 then notifyWaiters s1 else s1))"

text \<open>
  The whole call. \<open>ctx\<close> is \<open>ctx.Err()\<close> when the call wakes up (\<open>None\<close> while \<open>Done\<close> is
  not closed), \<open>env\<close> is what the other goroutines do to the semaphore between the first
  \<open>Unlock\<close> and the wake-up. When both \<open>ready\<close> and \<open>Done\<close> are closed the two branches of
  the \<open>select\<close> give the same result, the one of \<open>Acquire_cancel\<close>.
\<close>

definition Acquire ::
  "(Weighted \<Rightarrow> Weighted) \<Rightarrow> 'e option \<Rightarrow> int64 \<Rightarrow> Weighted \<Rightarrow> ('e option \<times> Weighted, string) fate"
where
  "Acquire env ctx k s =
     (case Acquire_lock k s of
        (Acquired, s') \<Rightarrow> Returns (None, s')
      | (Doomed, s') \<Rightarrow>
          (case ctx of None \<Rightarrow> Blocked | Some e \<Rightarrow> Returns (Some e, env s'))
      | (Queued r, s') \<Rightarrow>
          (case ctx of
             None \<Rightarrow> if r \<in> closed (env s') then Returns (None, env s') else Blocked
           | Some e \<Rightarrow> Returns (Acquire_cancel e r (env s'))))"

text \<open>The invariant of the data model: \<open>0 \<le> cur \<le> size\<close>, read as signed integers.\<close>

definition sem_inv :: "Weighted \<Rightarrow> bool" where
  "sem_inv s \<longleftrightarrow> 0 \<le>s cur s \<and> cur s \<le>s size_s s"

text \<open>
  The channel heap is well formed: the queued \<open>ready\<close> channels are distinct, allocated
  and open, and the next address is unused.
\<close>

definition chan_inv :: "Weighted \<Rightarrow> bool" where
  "chan_inv s \<longleftrightarrow>
     distinct (map ready (waiters s))
   \<and> list_all (\<lambda>w. ready w < nchan s \<and> ready w \<notin> closed s) (waiters s)
   \<and> (\<forall>c\<in>closed s. c < nchan s)"

text \<open>
  \<open>sem_ok\<close>: the invariant of the counters, and no queued weight is negative. It holds
  for \<open>NewWeighted\<close> of a capacity that is not negative and is kept by every operation
  called with a weight that is not negative (lemma \<open>sem_ok_preserved\<close>).
\<close>

definition sem_ok :: "Weighted \<Rightarrow> bool" where
  "sem_ok s \<longleftrightarrow> sem_inv s \<and> list_all (\<lambda>w. 0 \<le>s n_w w) (waiters s)"

text \<open>The errors of package \<open>context\<close> that \<open>ctx.Err()\<close> returns.\<close>

datatype ctx_error = Canceled | DeadlineExceeded

text \<open>Two concrete semaphores: an idle one, and one with three queued waiters.\<close>

definition ex_sem :: Weighted where
  "ex_sem = \<lparr>size_s = 10, cur = 3, waiters = [], closed = {}, nchan = 0\<rparr>"

definition ex_queue :: Weighted where
  "ex_queue =
     \<lparr>size_s = 5, cur = 3,
      waiters = [\<lparr>n_w = 5, ready = 0\<rparr>, \<lparr>n_w = 1, ready = 1\<rparr>, \<lparr>n_w = 1, ready = 2\<rparr>],
      closed = {}, nchan = 3\<rparr>"

section \<open>errgroup: the task group\<close>

text \<open>
  \<open>Group\<close>: \<open>cancel\<close> is \<open>None\<close> for the nil function of a zero Group and \<open>Some b\<close> for the
  cancel function of \<open>WithContext\<close>, \<open>b\<close> telling whether it was called (the derived
  context is cancelled); \<open>wg\<close> is the WaitGroup's counter, \<open>errOnce\<close> tells whether the
  \<open>sync.Once\<close> has fired, \<open>err\<close> is the stored error (\<open>None\<close> is nil).
\<close>

record 'e Group =
  cancel :: "bool option"
  wg :: int
  errOnce :: bool
  err :: "'e option"

definition zero_Group :: "'e Group" where
  "zero_Group = \<lparr>cancel = None, wg = 0, errOnce = False, err = None\<rparr>"

definition WithContext :: "'e Group" where
  "WithContext = \<lparr>cancel = Some False, wg = 0, errOnce = False, err = None\<rparr>"

text \<open>\<open>if g.cancel != nil { g.cancel() }\<close>\<close>

definition call_cancel :: "'e Group \<Rightarrow> 'e Group" where
  "call_cancel g = (case cancel g of None \<Rightarrow> g | Some _ \<Rightarrow> g\<lparr>cancel := Some True\<rparr>)"

text \<open>
  \<open>Wait\<close> blocks while the counter is not zero, then cancels and returns \<open>g.err\<close>.
\<close>

definition Wait :: "'e Group \<Rightarrow> ('e option \<times> 'e Group, string) fate" where
  "Wait g = (if wg g \<noteq> 0 then Blocked else Returns (err g, call_cancel g))"

text \<open>\<open>Go\<close>: \<open>g.wg.Add(1)\<close>, then the goroutine is started.\<close>

definition Go :: "'e Group \<Rightarrow> 'e Group" where
  "Go g = g\<lparr>wg := wg g + 1\<rparr>"

text \<open>
  The goroutine of \<open>Go\<close>, from the return of \<open>f\<close> with result \<open>r\<close>: a non-nil error goes
  through \<open>errOnce.Do\<close>, which runs its function only the first time; the deferred
  \<open>wg.Done()\<close> follows, and panics on a counter that would go negative. \<open>sync.Once\<close>
  serialises its callers, so the step is atomic.
\<close>

definition goroutine :: "'e option \<Rightarrow> 'e Group \<Rightarrow> ('e Group, string) fate" where
  "goroutine r g =
     (let g1 = (case r of
                  None \<Rightarrow> g
                | Some e \<Rightarrow>
                    if errOnce g then g
                    else (call_cancel (g\<lparr>err := Some e\<rparr>))\<lparr>errOnce := True\<rparr>)
      in if wg g1 - 1 < 0 then Panics ''sync: negative WaitGroup counter''
         else Returns (g1\<lparr>wg := wg g1 - 1\<rparr>))"

text \<open>
  A run of a group is the sequence of its events in the order they happen: a call of
  \<open>Go\<close>, or a task finishing with the result of its function.
\<close>

datatype 'e event = Spawn | Finished "'e option"

fun step :: "'e event \<Rightarrow> 'e Group \<Rightarrow> ('e Group, string) fate" where
  "step Spawn g = Returns (Go g)"
| "step (Finished r) g = goroutine r g"

fun run :: "'e event list \<Rightarrow> 'e Group \<Rightarrow> ('e Group, string) fate" where
  "run [] g = Returns g"
| "run (ev # evs) g =
     (case step ev g of
        Returns g' \<Rightarrow> run evs g'
      | Blocked \<Rightarrow> Blocked
      | Panics x \<Rightarrow> Panics x
      | GoPanics x \<Rightarrow> GoPanics x
      | Goexits \<Rightarrow> Goexits)"

text \<open>The errors of the tasks that failed, in the order the tasks finished.\<close>

fun errors :: "'e event list \<Rightarrow> 'e list" where
  "errors [] = []"
| "errors (Spawn # evs) = errors evs"
| "errors (Finished None # evs) = errors evs"
| "errors (Finished (Some e) # evs) = e # errors evs"

definition first_error :: "'e event list \<Rightarrow> 'e option" where
  "first_error evs = (case errors evs of [] \<Rightarrow> None | e # _ \<Rightarrow> Some e)"

text \<open>The tasks of a run that were started and have not finished.\<close>

definition pending :: "'e event list \<Rightarrow> int" where
  "pending evs = int (length (filter (\<lambda>ev. ev = Spawn) evs))
               - int (length (filter (\<lambda>ev. ev \<noteq> Spawn) evs))"

text \<open>Three tasks, the second to finish and the third to finish fail.\<close>

definition ex_run :: "string event list" where
  "ex_run = [Spawn, Spawn, Finished None, Spawn, Finished (Some ''e2''), Finished (Some ''e3'')]"

definition ex_run_one :: "string event list" where
  "ex_run_one = [Spawn, Spawn, Spawn, Finished None, Finished None, Finished (Some ''E'')]"

section \<open>singleflight: duplicate call suppression\<close>

type_synonym key = string
type_synonym cid = nat

text \<open>
  The errors a call can hold: an error returned by the user's function, a \<open>panicError\<close>
  (the recovered value and the stack trace) and the package's \<open>errGoexit\<close>. The last two
  are unexported: the user's function cannot return them.
\<close>

datatype ('v, 'e) error_sf = FnError 'e | PanicError 'v string | ErrGoexit

text \<open>\<open>bytes.IndexByte\<close>: the index of the first instance of the byte, or -1.\<close>

fun IndexByte :: "string \<Rightarrow> char \<Rightarrow> int" where
  "IndexByte [] c = - 1"
| "IndexByte (x # xs) c =
     (if x = c then 0 else let i = IndexByte xs c in if i < 0 then - 1 else i + 1)"

text \<open>
  \<open>newPanicError\<close>: \<open>stack\<close> is what \<open>debug.Stack()\<close> returns; its first line is trimmed.
\<close>

definition newPanicError :: "'v \<Rightarrow> string \<Rightarrow> ('v, 'e) error_sf" where
  "newPanicError v stack =
     (let line = IndexByte stack (CHR 0x0A)
      in PanicError v (if line \<ge> 0 then drop (nat (line + 1)) stack else stack))"

text \<open>
  \<open>call\<close>: the WaitGroup's counter, the result (\<open>None\<close> is nil), the flags and the
  channels of the \<open>DoChan\<close> callers. \<open>dups\<close> is a Go \<open>int\<close>: a signed machine integer
  of the platform's width, 32 or 64 bits, on which \<open>c.dups++\<close> wraps. Its type is the
  parameter \<open>'i\<close>; the functions below use it at \<open>'w word\<close>, for any width \<open>'w\<close>.
\<close>

record ('v, 'e, 'i) call =
  c_wg :: int
  val :: "'v option"
  c_err :: "('v, 'e) error_sf option"
  forgotten :: bool
  dups :: 'i
  chans :: "chan list"

record ('v, 'e) Result =
  Val :: "'v option"
  Err :: "('v, 'e) error_sf option"
  Shared :: bool

text \<open>
  \<open>Group\<close> and the heap it points into: \<open>m_map\<close> is the map \<open>g.m\<close> from keys to calls
  (\<open>None\<close> is the nil map of a zero Group), \<open>calls\<close> holds the call objects by address,
  \<open>chan_buf\<close> holds what was sent on each result channel. \<open>ncall\<close> and \<open>nres\<close> are the next
  addresses \<open>new(call)\<close> and \<open>make(chan Result, 1)\<close> return. Every function below is one
  critical section of \<open>g.mu\<close>, or a stretch of code that touches only its own call.
\<close>

record ('v, 'e, 'i) SGroup =
  m_map :: "(key \<rightharpoonup> cid) option"
  calls :: "cid \<rightharpoonup> ('v, 'e, 'i) call"
  ncall :: cid
  chan_buf :: "chan \<Rightarrow> ('v, 'e) Result list"
  nres :: chan

definition zero_SGroup :: "('v, 'e, 'i) SGroup" where
  "zero_SGroup = \<lparr>m_map = None, calls = Map.empty, ncall = 0, chan_buf = (\<lambda>_. []), nres = 0\<rparr>"

text \<open>\<open>g.m[key]\<close>: reading a nil map finds nothing.\<close>

definition lookup :: "('v, 'e, 'i) SGroup \<Rightarrow> key \<Rightarrow> cid option" where
  "lookup g k = (case m_map g of None \<Rightarrow> None | Some mp \<Rightarrow> mp k)"

text \<open>\<open>if g.m == nil { g.m = make(map[string]*call) }\<close>\<close>

definition init_m :: "('v, 'e, 'i) SGroup \<Rightarrow> ('v, 'e, 'i) SGroup" where
  "init_m g = (case m_map g of None \<Rightarrow> g\<lparr>m_map := Some Map.empty\<rparr> | Some _ \<Rightarrow> g)"

text \<open>\<open>g.m[key] = c\<close>, on a map that was initialised.\<close>

definition store_key :: "key \<Rightarrow> cid \<Rightarrow> ('v, 'e, 'i) SGroup \<Rightarrow> ('v, 'e, 'i) SGroup" where
  "store_key k c g =
     (case m_map g of None \<Rightarrow> g | Some mp \<Rightarrow> g\<lparr>m_map := Some (mp(k \<mapsto> c))\<rparr>)"

text \<open>\<open>delete(g.m, key)\<close>: no effect on a nil map or a missing key.\<close>

definition delete_key :: "key \<Rightarrow> ('v, 'e, 'i) SGroup \<Rightarrow> ('v, 'e, 'i) SGroup" where
  "delete_key k g =
     (case m_map g of None \<Rightarrow> g | Some mp \<Rightarrow> g\<lparr>m_map := Some (mp(k := None))\<rparr>)"

text \<open>A write through the pointer \<open>c\<close>. Go pointers do not dangle: the object is there.\<close>

definition upd_call ::
  "cid \<Rightarrow> (('v, 'e, 'i) call \<Rightarrow> ('v, 'e, 'i) call) \<Rightarrow> ('v, 'e, 'i) SGroup
     \<Rightarrow> ('v, 'e, 'i) SGroup" where
  "upd_call c f g =
     (case calls g c of None \<Rightarrow> g | Some x \<Rightarrow> g\<lparr>calls := (calls g)(c \<mapsto> f x)\<rparr>)"

definition new_call :: "('v, 'e, 'w::len word) call" where
  "new_call = \<lparr>c_wg = 0, val = None, c_err = None, forgotten = False, dups = 0, chans = []\<rparr>"

text \<open>
  \<open>Do\<close>, its critical section: a caller that finds the key joins the call (\<open>dups++\<close>);
  otherwise it allocates a call with \<open>wg.Add(1)\<close>, stores it under the key and goes on to
  run the function.
\<close>

datatype do_step = Joined cid | Started cid

definition Do_lock ::
  "key \<Rightarrow> ('v, 'e, 'w::len word) SGroup \<Rightarrow> do_step \<times> ('v, 'e, 'w word) SGroup" where
  "Do_lock k g0 =
     (let g = init_m g0
      in case lookup g k of
           Some c \<Rightarrow> (Joined c, upd_call c (\<lambda>x. x\<lparr>dups := dups x + 1\<rparr>) g)
         | None \<Rightarrow>
             let c = ncall g
             in (Started c,
                 store_key k c
                   (g\<lparr>calls := (calls g)(c \<mapsto> new_call\<lparr>c_wg := 1\<rparr>), ncall := Suc c\<rparr>)))"

text \<open>
  A joined caller of \<open>Do\<close>, from \<open>c.wg.Wait()\<close> on: it blocks while the counter is not
  zero; then a \<open>panicError\<close> is re-raised, \<open>errGoexit\<close> ends the goroutine, and anything
  else is returned with \<open>shared = true\<close>.
\<close>

definition Do_wait ::
  "cid \<Rightarrow> ('v, 'e, 'i) SGroup
     \<Rightarrow> ('v option \<times> ('v, 'e) error_sf option \<times> bool, ('v, 'e) error_sf) fate" where
  "Do_wait c g =
     (case calls g c of
        None \<Rightarrow> Blocked
      | Some x \<Rightarrow>
          if c_wg x \<noteq> 0 then Blocked
          else (case c_err x of
                  Some (PanicError v st) \<Rightarrow> Panics (PanicError v st)
                | Some ErrGoexit \<Rightarrow> Goexits
                | _ \<Rightarrow> Returns (val x, c_err x, True)))"

text \<open>
  The errors the user's function can return: an error of its own, or a \<open>*panicError\<close>
  that it holds because it recovered the panic of an earlier \<open>Do\<close>. It cannot return
  \<open>errGoexit\<close>: the variable is unexported and no function of the package hands its
  value out (\<open>Do\<close> returns \<open>c.err\<close> and \<open>doCall\<close> sends it only where it is not \<open>errGoexit\<close>).
\<close>

datatype ('v, 'e) fn_error = UserError 'e | RecoveredPanic 'v string

fun as_error :: "('v, 'e) fn_error \<Rightarrow> ('v, 'e) error_sf" where
  "as_error (UserError e) = FnError e"
| "as_error (RecoveredPanic v st) = PanicError v st"

text \<open>
  How the user's function ends: it returns a value and an error, it panics (\<open>r\<close> is what
  \<open>recover()\<close> then returns, \<open>None\<close> for nil, and \<open>st\<close> is \<open>debug.Stack()\<close>), or it calls
  \<open>runtime.Goexit\<close>.
\<close>

datatype ('v, 'e) outcome =
  Return "'v option" "('v, 'e) fn_error option" | Panic "'v option" string | Goexit

text \<open>
  The inner function of \<open>doCall\<close> with its deferred \<open>recover\<close>, and the statement after
  it: the call as written by them, and the flags \<open>normalReturn\<close> and \<open>recovered\<close>.
\<close>

fun run_fn ::
  "('v, 'e) outcome \<Rightarrow> ('v, 'e, 'i) call \<Rightarrow> ('v, 'e, 'i) call \<times> bool \<times> bool" where
  "run_fn (Return v e) x = (x\<lparr>val := v, c_err := map_option as_error e\<rparr>, True, False)"
| "run_fn (Panic r st) x =
     ((case r of None \<Rightarrow> x | Some v \<Rightarrow> x\<lparr>c_err := Some (newPanicError v st)\<rparr>), False, True)"
| "run_fn Goexit x = (x, False, False)"

text \<open>
  \<open>doCall\<close> up to \<open>c.wg.Done()\<close>: the function has ended, the deferred function stores
  \<open>errGoexit\<close> when the function neither returned nor panicked, and releases the waiters.
\<close>

definition doCall_fn ::
  "cid \<Rightarrow> ('v, 'e) outcome \<Rightarrow> ('v, 'e, 'i) SGroup \<Rightarrow> ('v, 'e, 'i) SGroup" where
  "doCall_fn c out g =
     upd_call c
       (\<lambda>x. case run_fn out x of
               (x1, normalReturn, recovered) \<Rightarrow>
                 let x2 = (if \<not> normalReturn \<and> \<not> recovered then x1\<lparr>c_err := Some ErrGoexit\<rparr>
                           else x1)
                 in x2\<lparr>c_wg := c_wg x2 - 1\<rparr>)
       g"

text \<open>\<open>ch <- Result{...}\<close>\<close>

definition send ::
  "('v, 'e) Result \<Rightarrow> ('v, 'e, 'i) SGroup \<Rightarrow> chan \<Rightarrow> ('v, 'e, 'i) SGroup" where
  "send res g ch = g\<lparr>chan_buf := (chan_buf g)(ch := chan_buf g ch @ [res])\<rparr>"

text \<open>
  The rest of the deferred function of \<open>doCall\<close>, under the lock: the key is deleted
  unless the call was forgotten; a \<open>panicError\<close> is re-raised, in a fresh goroutine when
  the call has channels; for \<open>errGoexit\<close> nothing is done and the goroutine goes on
  exiting; otherwise the result is sent on every channel. The second component is the
  fate of the goroutine that runs \<open>doCall\<close>.
\<close>

definition doCall_deferred ::
  "cid \<Rightarrow> key \<Rightarrow> ('v, 'e, 'w::len word) SGroup
     \<Rightarrow> ('v, 'e, 'w word) SGroup \<times> (unit, ('v, 'e) error_sf) fate" where
  "doCall_deferred c k g =
     (case calls g c of
        None \<Rightarrow> (g, Blocked)
      | Some x \<Rightarrow>
          let g1 = (if \<not> forgotten x then delete_key k g else g)
          in case c_err x of
               Some (PanicError v st) \<Rightarrow>
                 (g1, if length (chans x) > 0 then GoPanics (PanicError v st)
                      else Panics (PanicError v st))
             | Some ErrGoexit \<Rightarrow> (g1, Goexits)
             | _ \<Rightarrow>
                 (foldl (send \<lparr>Val = val x, Err = c_err x, Shared = 0 <s dups x\<rparr>) g1 (chans x),
                  Returns ()))"

text \<open>
  The caller of \<open>Do\<close> that started the call: \<open>doCall\<close>, then
  \<open>return c.val, c.err, c.dups > 0\<close> (a signed comparison). \<open>env\<close> is what the other goroutines do between
  \<open>c.wg.Done()\<close> and \<open>g.mu.Lock()\<close>.
\<close>

definition Do_call ::
  "(('v, 'e, 'w::len word) SGroup \<Rightarrow> ('v, 'e, 'w word) SGroup) \<Rightarrow> cid \<Rightarrow> key
     \<Rightarrow> ('v, 'e) outcome \<Rightarrow> ('v, 'e, 'w word) SGroup
     \<Rightarrow> ('v, 'e, 'w word) SGroup
        \<times> ('v option \<times> ('v, 'e) error_sf option \<times> bool, ('v, 'e) error_sf) fate"
where
  "Do_call env c k out g =
     (case doCall_deferred c k (env (doCall_fn c out g)) of
        (g2, Returns _) \<Rightarrow>
          (g2, case calls g2 c of
                 None \<Rightarrow> Blocked
               | Some x \<Rightarrow> Returns (val x, c_err x, 0 <s dups x))
      | (g2, Blocked) \<Rightarrow> (g2, Blocked)
      | (g2, Panics e) \<Rightarrow> (g2, Panics e)
      | (g2, GoPanics e) \<Rightarrow> (g2, GoPanics e)
      | (g2, Goexits) \<Rightarrow> (g2, Goexits))"

text \<open>
  \<open>Do\<close> as a whole. \<open>env1\<close> is what the other goroutines do while this caller waits or
  runs the function (which ends as \<open>out\<close>); a caller that joined does not run it.
\<close>

definition Do ::
  "(('v, 'e, 'w::len word) SGroup \<Rightarrow> ('v, 'e, 'w word) SGroup)
     \<Rightarrow> (('v, 'e, 'w word) SGroup \<Rightarrow> ('v, 'e, 'w word) SGroup)
     \<Rightarrow> key \<Rightarrow> ('v, 'e) outcome \<Rightarrow> ('v, 'e, 'w word) SGroup
     \<Rightarrow> ('v, 'e, 'w word) SGroup
        \<times> ('v option \<times> ('v, 'e) error_sf option \<times> bool, ('v, 'e) error_sf) fate"
where
  "Do env1 env2 k out g =
     (case Do_lock k g of
        (Joined c, g1) \<Rightarrow> (env1 g1, Do_wait c (env1 g1))
      | (Started c, g1) \<Rightarrow> Do_call env2 c k out (env1 g1))"

text \<open>
  \<open>DoChan\<close>, its critical section: the caller makes its channel and either joins the
  call, appending the channel, or starts a call that holds it. The channel is returned
  at once; a started call runs \<open>doCall\<close> in a goroutine of its own.
\<close>

definition DoChan_lock ::
  "key \<Rightarrow> ('v, 'e, 'w::len word) SGroup \<Rightarrow> (do_step \<times> chan) \<times> ('v, 'e, 'w word) SGroup" where
  "DoChan_lock k g0 =
     (let ch = nres g0;
          g = init_m (g0\<lparr>nres := Suc ch\<rparr>)
      in case lookup g k of
           Some c \<Rightarrow>
             ((Joined c, ch), upd_call c (\<lambda>x. x\<lparr>dups := dups x + 1, chans := chans x @ [ch]\<rparr>) g)
         | None \<Rightarrow>
             let c = ncall g
             in ((Started c, ch),
                 store_key k c
                   (g\<lparr>calls := (calls g)(c \<mapsto> new_call\<lparr>chans := [ch], c_wg := 1\<rparr>),
                      ncall := Suc c\<rparr>)))"

text \<open>\<open>Forget\<close>: the call under the key, if any, is marked; the key is deleted.\<close>

definition Forget :: "key \<Rightarrow> ('v, 'e, 'i) SGroup \<Rightarrow> ('v, 'e, 'i) SGroup" where
  "Forget k g =
     delete_key k
       (case lookup g k of
          Some c \<Rightarrow> upd_call c (\<lambda>x. x\<lparr>forgotten := True\<rparr>) g
        | None \<Rightarrow> g)"

text \<open>
  Callers that join while the call is in flight: \<open>True\<close> for a caller of \<open>Do\<close>, \<open>False\<close>
  for a caller of \<open>DoChan\<close>.
\<close>

fun join :: "key \<Rightarrow> ('v, 'e, 'w::len word) SGroup \<Rightarrow> bool \<Rightarrow> ('v, 'e, 'w word) SGroup" where
  "join k g True = snd (Do_lock k g)"
| "join k g False = snd (DoChan_lock k g)"

text \<open>
  The map of a group reached from the zero Group: every key points to an allocated
  call that is not forgotten, and no call stands under two keys.
\<close>

definition reg_inv :: "('v, 'e, 'i) SGroup \<Rightarrow> bool" where
  "reg_inv g \<longleftrightarrow>
     (\<forall>k c. lookup g k = Some c \<longrightarrow> c < ncall g \<and> (\<exists>x. calls g c = Some x \<and> \<not> forgotten x))
   \<and> (\<forall>k k' c. lookup g k = Some c \<and> lookup g k' = Some c \<longrightarrow> k = k')"

text \<open>
  Concrete groups: a call for key \<open>k\<close> in flight on a zero Group, the same after a
  second caller of \<open>Do\<close> joined, and after a caller of \<open>DoChan\<close> joined as well (its
  channel is 0). \<open>ex_many\<close> is \<open>2 ^ 63\<close> callers of \<open>Do\<close>; \<open>ex_stack\<close> is a stack trace of
  two lines.
\<close>

definition ex_inflight :: "(string, string, 64 word) SGroup" where
  "ex_inflight = snd (Do_lock ''k'' zero_SGroup)"

definition ex_joined :: "(string, string, 64 word) SGroup" where
  "ex_joined = snd (Do_lock ''k'' ex_inflight)"

definition ex_joined_chan :: "(string, string, 64 word) SGroup" where
  "ex_joined_chan = snd (DoChan_lock ''k'' ex_joined)"

definition ex_many :: "bool list" where
  "ex_many = replicate (2 ^ 63) True"

definition ex_stack :: string where
  "ex_stack = ''goroutine 7 [running]:'' @ [CHR 0x0A] @ ''main.fn()''"

section \<open>Properties of the semaphore\<close>

lemma sint_free:
  assumes "sem_inv s"
  shows "sint (size_s s - cur s) = sint (size_s s) - sint (cur s)"
proof -
  have a: "0 \<le> sint (cur s)" "sint (cur s) \<le> sint (size_s s)"
    using assms by (simp_all add: sem_inv_def word_sle_eq)
  have b: "sint (size_s s) < 2 ^ 63"
    using sint_lt [of "size_s s"] by simp
  have "sint (size_s s - cur s) = signed_take_bit 63 (sint (size_s s) - sint (cur s))"
    by (simp add: sint_word_ariths)
  also have "\<dots> = sint (size_s s) - sint (cur s)"
    using a b by (intro signed_take_bit_int_eq_self) auto
  finally show ?thesis .
qed

lemma sint_alloc:
  assumes "sem_inv s" and "sint k \<le> sint (size_s s) - sint (cur s)"
  shows "sint (cur s + k) = sint (cur s) + sint k"
proof -
  have a: "0 \<le> sint (cur s)"
    using assms(1) by (simp add: sem_inv_def word_sle_eq)
  have b: "sint (size_s s) < 2 ^ 63" "- (2 ^ 63) \<le> sint k"
    using sint_lt [of "size_s s"] sint_ge [of k] by simp_all
  have "sint (cur s + k) = signed_take_bit 63 (sint (cur s) + sint k)"
    by (simp add: sint_word_ariths)
  also have "\<dots> = sint (cur s) + sint k"
    using a b assms(2) by (intro signed_take_bit_int_eq_self) auto
  finally show ?thesis .
qed

lemma notifyWaiters_Nil: "waiters s = [] \<Longrightarrow> notifyWaiters s = s"
  by (simp add: notifyWaiters.simps [of s])

lemma notifyWaiters_blocked:
  "waiters s = w # ws \<Longrightarrow> size_s s - cur s <s n_w w \<Longrightarrow> notifyWaiters s = s"
  by (simp add: notifyWaiters.simps [of s])

text \<open>
  What the loop computes: it grants a prefix of the queue, of some length \<open>k\<close>. Every
  granted waiter fitted when its turn came, and the loop stopped because the queue was
  empty or the next waiter did not fit.
\<close>

lemma notifyWaiters_scan:
  "\<exists>k\<le>length (waiters s).
      waiters (notifyWaiters s) = drop k (waiters s)
    \<and> cur (notifyWaiters s) = cur s + sum_list (map n_w (take k (waiters s)))
    \<and> closed (notifyWaiters s) = closed s \<union> ready ` set (take k (waiters s))
    \<and> size_s (notifyWaiters s) = size_s s
    \<and> nchan (notifyWaiters s) = nchan s
    \<and> (\<forall>j<k. \<not> size_s s - (cur s + sum_list (map n_w (take j (waiters s))))
                  <s n_w (waiters s ! j))
    \<and> (k < length (waiters s) \<longrightarrow> size_s s - cur (notifyWaiters s) <s n_w (waiters s ! k))"
proof (induction s rule: notifyWaiters.induct)
  case (1 s)
  show ?case
  proof (cases "waiters s")
    case Nil
    then show ?thesis by (simp add: notifyWaiters_Nil)
  next
    case (Cons w ws)
    show ?thesis
    proof (cases "size_s s - cur s <s n_w w")
      case True
      with Cons have "notifyWaiters s = s" by (simp add: notifyWaiters_blocked)
      with Cons True show ?thesis by (intro exI [of _ 0]) simp
    next
      case False
      define s' where
        "s' = s\<lparr>cur := cur s + n_w w, waiters := ws, closed := insert (ready w) (closed s)\<rparr>"
      have eq: "notifyWaiters s = notifyWaiters s'"
        using Cons False by (simp add: notifyWaiters.simps [of s] s'_def)
      from "1.IH" [OF Cons False] obtain k where k: "k \<le> length (waiters s')"
        "waiters (notifyWaiters s') = drop k (waiters s')"
        "cur (notifyWaiters s') = cur s' + sum_list (map n_w (take k (waiters s')))"
        "closed (notifyWaiters s') = closed s' \<union> ready ` set (take k (waiters s'))"
        "size_s (notifyWaiters s') = size_s s'"
        "nchan (notifyWaiters s') = nchan s'"
        "\<forall>j<k. \<not> size_s s' - (cur s' + sum_list (map n_w (take j (waiters s'))))
                 <s n_w (waiters s' ! j)"
        "k < length (waiters s') \<longrightarrow> size_s s' - cur (notifyWaiters s') <s n_w (waiters s' ! k)"
        unfolding s'_def by blast
      show ?thesis
      proof (intro exI [of _ "Suc k"] conjI allI impI)
        show "Suc k \<le> length (waiters s)" using k(1) Cons by (simp add: s'_def)
        show "waiters (notifyWaiters s) = drop (Suc k) (waiters s)"
          using k(2) Cons by (simp add: eq s'_def)
        show "cur (notifyWaiters s) = cur s + sum_list (map n_w (take (Suc k) (waiters s)))"
          using k(3) Cons by (simp add: eq s'_def add.assoc)
        show "closed (notifyWaiters s) = closed s \<union> ready ` set (take (Suc k) (waiters s))"
          using k(4) Cons by (simp add: eq s'_def)
        show "size_s (notifyWaiters s) = size_s s" using k(5) by (simp add: eq s'_def)
        show "nchan (notifyWaiters s) = nchan s" using k(6) by (simp add: eq s'_def)
        show "\<not> size_s s - (cur s + sum_list (map n_w (take j (waiters s)))) <s n_w (waiters s ! j)"
          if "j < Suc k" for j
        proof (cases j)
          case 0
          then show ?thesis using False Cons by simp
        next
          case (Suc i)
          then have "i < k" using that by simp
          with k(7) show ?thesis using Cons Suc by (simp add: s'_def add.assoc)
        qed
        show "size_s s - cur (notifyWaiters s) <s n_w (waiters s ! Suc k)"
          if "Suc k < length (waiters s)"
          using k(8) that Cons by (simp add: eq s'_def)
      qed
    qed
  qed
qed

lemma notifyWaiters_subset: "set (waiters (notifyWaiters s)) \<subseteq> set (waiters s)"
proof -
  obtain k where "waiters (notifyWaiters s) = drop k (waiters s)"
    using notifyWaiters_scan [of s] by blast
  then show ?thesis by (simp add: set_drop_subset)
qed

lemma Remove_append_fresh:
  "r \<notin> ready ` set ws \<Longrightarrow> Remove r (ws @ [\<lparr>n_w = k, ready = r\<rparr>]) = ws"
  by (induction ws) auto

lemma Remove_gone: "distinct (map ready ws) \<Longrightarrow> r \<notin> ready ` set (Remove r ws)"
  by (induction ws) auto

lemma ex_queue_eval:
  "notifyWaiters ex_queue = ex_queue"
  "notifyWaiters (ex_queue\<lparr>cur := 0\<rparr>) =
     ex_queue\<lparr>cur := 5, waiters := [\<lparr>n_w = 1, ready = 1\<rparr>, \<lparr>n_w = 1, ready = 2\<rparr>], closed := {0}\<rparr>"
  "notifyWaiters (ex_queue\<lparr>waiters := [\<lparr>n_w = 1, ready = 1\<rparr>, \<lparr>n_w = 1, ready = 2\<rparr>]\<rparr>) =
     ex_queue\<lparr>cur := 5, waiters := [], closed := {1, 2}\<rparr>"
  by (simp_all add: ex_queue_def notifyWaiters.simps word_sless_alt insert_commute)

text \<open>
  The invariants hold initially and are kept by every operation: the hypotheses of the
  theorems below hold in every state a program reaches with weights that are not
  negative.
\<close>

lemma grant_ok:
  assumes "sem_inv s" and "0 \<le>s k" and "\<not> size_s s - cur s <s k"
  shows "sem_inv (s\<lparr>cur := cur s + k\<rparr>)"
proof -
  have fit: "sint k \<le> sint (size_s s) - sint (cur s)"
    using assms(3) by (simp add: word_sless_alt sint_free [OF assms(1)])
  have "sint (cur s + k) = sint (cur s) + sint k"
    by (rule sint_alloc [OF assms(1) fit])
  then show ?thesis
    using assms(1,2) fit by (simp add: sem_inv_def word_sle_eq)
qed

lemma sem_ok_notifyWaiters: "sem_ok s \<Longrightarrow> sem_ok (notifyWaiters s)"
proof (induction s rule: notifyWaiters.induct)
  case (1 s)
  show ?case
  proof (cases "waiters s")
    case Nil
    then show ?thesis using "1.prems" by (simp add: notifyWaiters_Nil)
  next
    case (Cons w ws)
    show ?thesis
    proof (cases "size_s s - cur s <s n_w w")
      case True
      then show ?thesis using Cons "1.prems" by (simp add: notifyWaiters_blocked)
    next
      case False
      let ?s' = "s\<lparr>cur := cur s + n_w w, waiters := ws, closed := insert (ready w) (closed s)\<rparr>"
      have "sem_inv (s\<lparr>cur := cur s + n_w w\<rparr>)"
        using grant_ok [OF _ _ False] "1.prems" Cons by (simp add: sem_ok_def)
      then have "sem_ok ?s'"
        using "1.prems" Cons by (simp add: sem_ok_def sem_inv_def)
      from "1.IH" [OF Cons False this] show ?thesis
        using Cons False by (simp add: notifyWaiters.simps [of s])
    qed
  qed
qed

lemma Remove_list_all: "list_all P ws \<Longrightarrow> list_all P (Remove r ws)"
  by (induction ws) auto

lemma sem_ok_preserved:
  assumes "sem_ok s"
  shows "0 \<le>s k \<longrightarrow> sem_ok (snd (TryAcquire k s))"
    and "0 \<le>s k \<longrightarrow> sem_ok (snd (Acquire_lock k s))"
    and "0 \<le>s k \<and> Release k s = Returns s' \<longrightarrow> sem_ok s'"
    and "sem_ok (snd (Acquire_cancel e r s))"
proof -
  have inv: "sem_inv s" using assms by (simp add: sem_ok_def)
  have g: "sem_ok (s\<lparr>cur := cur s + k\<rparr>)" if "0 \<le>s k" "k \<le>s size_s s - cur s"
    using grant_ok [OF inv that(1)] that(2) assms
    by (simp add: sem_ok_def signed.not_less)
  show "0 \<le>s k \<longrightarrow> sem_ok (snd (TryAcquire k s))"
    using g assms by (auto simp: TryAcquire_def Let_def)
  show "0 \<le>s k \<longrightarrow> sem_ok (snd (Acquire_lock k s))"
    using g assms by (auto simp: Acquire_lock_def sem_ok_def sem_inv_def)
  show "0 \<le>s k \<and> Release k s = Returns s' \<longrightarrow> sem_ok s'"
  proof
    assume a: "0 \<le>s k \<and> Release k s = Returns s'"
    then have nn: "\<not> cur s - k <s 0" and s': "s' = notifyWaiters (s\<lparr>cur := cur s - k\<rparr>)"
      by (auto simp: Release_def Let_def split: if_splits)
    have c: "0 \<le> sint (cur s)" "sint (cur s) \<le> sint (size_s s)" "0 \<le> sint k"
      using inv a by (simp_all add: sem_inv_def word_sle_eq)
    have "sint (cur s - k) = signed_take_bit 63 (sint (cur s) - sint k)"
      by (simp add: sint_word_ariths)
    also have "\<dots> = sint (cur s) - sint k"
      using c sint_lt [of "cur s"] sint_lt [of k]
      by (intro signed_take_bit_int_eq_self) auto
    finally have "sint (cur s - k) = sint (cur s) - sint k" .
    then have "sem_ok (s\<lparr>cur := cur s - k\<rparr>)"
      using nn c assms by (simp add: sem_ok_def sem_inv_def word_sle_eq word_sless_alt)
    then show "sem_ok s'" unfolding s' by (rule sem_ok_notifyWaiters)
  qed
  have "sem_ok (s\<lparr>waiters := Remove r (waiters s)\<rparr>)"
    using assms by (simp add: sem_ok_def sem_inv_def Remove_list_all)
  then show "sem_ok (snd (Acquire_cancel e r s))"
    using assms sem_ok_notifyWaiters by (auto simp: Acquire_cancel_def Let_def)
qed

lemma chan_inv_notifyWaiters: "chan_inv s \<Longrightarrow> chan_inv (notifyWaiters s)"
proof (induction s rule: notifyWaiters.induct)
  case (1 s)
  show ?case
  proof (cases "waiters s")
    case Nil
    then show ?thesis using "1.prems" by (simp add: notifyWaiters_Nil)
  next
    case (Cons w ws)
    show ?thesis
    proof (cases "size_s s - cur s <s n_w w")
      case True
      then show ?thesis using Cons "1.prems" by (simp add: notifyWaiters_blocked)
    next
      case False
      let ?s' = "s\<lparr>cur := cur s + n_w w, waiters := ws, closed := insert (ready w) (closed s)\<rparr>"
      have d: "distinct (map ready ws)" "ready w \<notin> ready ` set ws"
        and a: "\<forall>x\<in>set ws. ready x < nchan s \<and> ready x \<notin> closed s" "ready w < nchan s"
        and b: "\<forall>c\<in>closed s. c < nchan s"
        using "1.prems" Cons by (simp_all add: chan_inv_def list_all_iff)
      have "\<forall>x\<in>set ws. ready x \<noteq> ready w"
        using d(2) by (metis imageI)
      then have "chan_inv ?s'"
        using d a b by (simp add: chan_inv_def list_all_iff)
      from "1.IH" [OF Cons False this] show ?thesis
        using Cons False by (simp add: notifyWaiters.simps [of s])
    qed
  qed
qed

lemma Remove_subset: "set (Remove r ws) \<subseteq> set ws"
  by (induction ws) auto

lemma Remove_distinct: "distinct (map ready ws) \<Longrightarrow> distinct (map ready (Remove r ws))"
proof (induction ws)
  case Nil
  then show ?case by simp
next
  case (Cons w ws)
  then show ?case using Remove_subset [of r ws] by (auto simp: image_iff)
qed

lemma chan_inv_preserved:
  assumes "chan_inv s"
  shows "chan_inv (snd (TryAcquire k s))"
    and "chan_inv (snd (Acquire_lock k s))"
    and "Release k s = Returns s' \<longrightarrow> chan_inv s'"
    and "chan_inv (snd (Acquire_cancel e r s))"
proof -
  show "chan_inv (snd (TryAcquire k s))"
    using assms by (auto simp: TryAcquire_def Let_def chan_inv_def)
  show "chan_inv (snd (Acquire_lock k s))"
    using assms by (fastforce simp: Acquire_lock_def chan_inv_def list_all_iff)
  have c: "chan_inv (s\<lparr>cur := x\<rparr>)" for x
    using assms by (simp add: chan_inv_def)
  show "Release k s = Returns s' \<longrightarrow> chan_inv s'"
    using chan_inv_notifyWaiters [OF c]
    by (auto simp: Release_def Let_def split: if_splits)
  have "chan_inv (s\<lparr>waiters := Remove r (waiters s)\<rparr>)"
    using assms Remove_subset [of r "waiters s"]
    by (auto simp: chan_inv_def list_all_iff Remove_distinct)
  then show "chan_inv (snd (Acquire_cancel e r s))"
    using assms chan_inv_notifyWaiters by (auto simp: Acquire_cancel_def Let_def)
qed

lemma init_ok: "0 \<le>s k \<Longrightarrow> sem_ok (NewWeighted k) \<and> chan_inv (NewWeighted k)"
  by (simp add: NewWeighted_def sem_ok_def sem_inv_def chan_inv_def)

text \<open>
  C7. \<open>TryAcquire k\<close> returns true exactly when \<open>k \<le> size - cur\<close> and the queue is
  empty; then the state is the old one with \<open>cur\<close> grown by \<open>k\<close>, otherwise it returns
  false and the state is the one before the call. The comparison and the addition are
  the code's, on wrapping signed 64-bit integers; on a semaphore with \<open>0 \<le> cur \<le> size\<close>
  they are the comparison and the sum of the integers (nothing wraps).
\<close>

theorem TryAcquire_iff:
  "(fst (TryAcquire k s) \<longleftrightarrow> k \<le>s size_s s - cur s \<and> waiters s = [])
 \<and> (fst (TryAcquire k s) \<longrightarrow> snd (TryAcquire k s) = s\<lparr>cur := cur s + k\<rparr>)
 \<and> (\<not> fst (TryAcquire k s) \<longrightarrow> snd (TryAcquire k s) = s)
 \<and> (sem_inv s \<longrightarrow>
       (k \<le>s size_s s - cur s \<longleftrightarrow> sint k \<le> sint (size_s s) - sint (cur s))
     \<and> (sint k \<le> sint (size_s s) - sint (cur s) \<longrightarrow>
          sint (cur s + k) = sint (cur s) + sint k))"
  using sint_alloc [of s k]
  by (auto simp: TryAcquire_def Let_def word_sle_eq sint_free)

theorem TryAcquire_iff_witness:
  "sem_inv ex_sem
 \<and> TryAcquire 7 ex_sem = (True, ex_sem\<lparr>cur := 10\<rparr>)
 \<and> TryAcquire 8 ex_sem = (False, ex_sem)
 \<and> TryAcquire 1 ex_queue = (False, ex_queue)"
  using TryAcquire_iff [of 7 ex_sem] TryAcquire_iff [of 8 ex_sem] TryAcquire_iff [of 1 ex_queue]
  by (simp add: ex_sem_def ex_queue_def sem_inv_def word_sle_eq prod_eq_iff)

text \<open>
  C10. When the fast path applies (\<open>k \<le> size - cur\<close> and an empty queue), \<open>Acquire\<close>
  returns nil with \<open>cur\<close> grown by \<open>k\<close> whatever the context is, also when the context
  is already done (\<open>ctx = Some e\<close>), and whatever the other goroutines do afterwards.
\<close>

theorem Acquire_fast_path_ignores_ctx:
  "(k \<le>s size_s s - cur s \<and> waiters s = [] \<longrightarrow>
      Acquire env ctx k s = Returns (None, s\<lparr>cur := cur s + k\<rparr>))
 \<and> (sem_inv s \<and> sint k \<le> sint (size_s s) - sint (cur s) \<and> waiters s = [] \<longrightarrow>
      Acquire env (Some e) k s = Returns (None, s\<lparr>cur := cur s + k\<rparr>)
    \<and> sint (cur s + k) = sint (cur s) + sint k)"
  using sint_alloc [of s k]
  by (auto simp: Acquire_def Acquire_lock_def word_sle_eq sint_free)

theorem Acquire_fast_path_ignores_ctx_witness:
  "sem_inv ex_sem
 \<and> Acquire id (Some Canceled) 7 ex_sem = Returns (None, ex_sem\<lparr>cur := 10\<rparr>)
 \<and> Acquire id (Some DeadlineExceeded) 0 ex_sem = Returns (None, ex_sem)"
  using Acquire_fast_path_ignores_ctx [of 7 ex_sem id "Some Canceled" Canceled]
    Acquire_fast_path_ignores_ctx [of 0 ex_sem id "Some DeadlineExceeded" DeadlineExceeded]
  by (simp add: ex_sem_def sem_inv_def word_sle_eq)

text \<open>
  C8. On a semaphore with \<open>0 \<le> cur \<le> size\<close>, \<open>Acquire\<close> with a weight above \<open>size\<close>
  leaves its critical section without a grant and without queueing a waiter (the state
  is the one before the call), stays blocked while the context is not done, and returns
  the context's error once it is; the state it leaves is what the other goroutines made
  of the unchanged one.
\<close>

theorem Acquire_above_capacity:
  assumes "sem_inv s" and "size_s s <s k"
  shows "Acquire_lock k s = (Doomed, s)
       \<and> Acquire env (None :: 'e option) k s = Blocked
       \<and> Acquire env (Some e) k s = Returns (Some (e :: 'e), env s)"
proof -
  have "\<not> k \<le>s size_s s - cur s"
    using assms by (simp add: word_sle_eq word_sless_alt sint_free sem_inv_def)
  then show ?thesis using assms(2) by (simp add: Acquire_def Acquire_lock_def)
qed

theorem Acquire_above_capacity_witness:
  "sem_inv ex_sem \<and> 10 <s (11 :: int64)
 \<and> Acquire_lock 11 ex_sem = (Doomed, ex_sem)
 \<and> Acquire id (Some Canceled) 11 ex_sem = Returns (Some Canceled, ex_sem)
 \<and> Acquire id (None :: ctx_error option) 11 ex_sem = Blocked"
  using Acquire_above_capacity [of ex_sem 11 id Canceled]
  by (simp add: ex_sem_def sem_inv_def word_sle_eq word_sless_alt)

text \<open>
  C6. \<open>notifyWaiters\<close> grants a prefix of the queue and nothing else: for some \<open>k\<close> the
  first \<open>k\<close> waiters are removed, their channels closed and their weights added to
  \<open>cur\<close>; each of them fitted in the free capacity left by the ones before it; the loop
  stopped on an empty queue or on a front waiter that does not fit. A front waiter that
  does not fit leaves the whole state as it was, whatever stands behind it: with
  \<open>W1\<close> of weight \<open>size\<close>, \<open>W2\<close> and \<open>W3\<close> of weight 1 and free capacity at least 2 but
  below \<open>size\<close>, nobody is granted. \<open>Release\<close> runs the loop after it subtracted.
\<close>

theorem notifyWaiters_fifo:
  "(\<exists>k\<le>length (waiters s).
      waiters (notifyWaiters s) = drop k (waiters s)
    \<and> cur (notifyWaiters s) = cur s + sum_list (map n_w (take k (waiters s)))
    \<and> closed (notifyWaiters s) = closed s \<union> ready ` set (take k (waiters s))
    \<and> size_s (notifyWaiters s) = size_s s
    \<and> (\<forall>j<k. \<not> size_s s - (cur s + sum_list (map n_w (take j (waiters s))))
                  <s n_w (waiters s ! j))
    \<and> (k < length (waiters s) \<longrightarrow> size_s s - cur (notifyWaiters s) <s n_w (waiters s ! k)))
 \<and> (waiters s \<noteq> [] \<and> size_s s - cur s <s n_w (hd (waiters s)) \<longrightarrow> notifyWaiters s = s)
 \<and> (sem_inv s \<and> waiters s = [W1, W2, W3] \<and> n_w W1 = size_s s \<and> n_w W2 = 1 \<and> n_w W3 = 1
      \<and> 2 \<le> sint (size_s s) - sint (cur s) \<and> sint (size_s s) - sint (cur s) < sint (size_s s)
      \<longrightarrow> notifyWaiters s = s)
 \<and> (\<not> cur s - k <s 0 \<longrightarrow> Release k s = Returns (notifyWaiters (s\<lparr>cur := cur s - k\<rparr>)))"
proof (intro conjI impI)
  show "\<exists>k\<le>length (waiters s).
      waiters (notifyWaiters s) = drop k (waiters s)
    \<and> cur (notifyWaiters s) = cur s + sum_list (map n_w (take k (waiters s)))
    \<and> closed (notifyWaiters s) = closed s \<union> ready ` set (take k (waiters s))
    \<and> size_s (notifyWaiters s) = size_s s
    \<and> (\<forall>j<k. \<not> size_s s - (cur s + sum_list (map n_w (take j (waiters s))))
                  <s n_w (waiters s ! j))
    \<and> (k < length (waiters s) \<longrightarrow> size_s s - cur (notifyWaiters s) <s n_w (waiters s ! k))"
    using notifyWaiters_scan [of s] by blast
  show "notifyWaiters s = s"
    if "waiters s \<noteq> [] \<and> size_s s - cur s <s n_w (hd (waiters s))"
    using that by (cases "waiters s") (simp_all add: notifyWaiters_blocked)
  show "notifyWaiters s = s"
    if h: "sem_inv s \<and> waiters s = [W1, W2, W3] \<and> n_w W1 = size_s s \<and> n_w W2 = 1 \<and> n_w W3 = 1
      \<and> 2 \<le> sint (size_s s) - sint (cur s) \<and> sint (size_s s) - sint (cur s) < sint (size_s s)"
  proof -
    have "size_s s - cur s <s n_w W1"
      using h by (simp add: word_sless_alt sint_free)
    with h show ?thesis by (simp add: notifyWaiters_blocked)
  qed
  show "Release k s = Returns (notifyWaiters (s\<lparr>cur := cur s - k\<rparr>))" if "\<not> cur s - k <s 0"
    using that by (simp add: Release_def)
qed

theorem notifyWaiters_fifo_witness:
  "sem_inv ex_queue
 \<and> notifyWaiters ex_queue = ex_queue
 \<and> Release 3 ex_queue =
     Returns (ex_queue\<lparr>cur := 5, waiters := [\<lparr>n_w = 1, ready = 1\<rparr>, \<lparr>n_w = 1, ready = 2\<rparr>],
                       closed := {0}\<rparr>)"
proof -
  have inv: "sem_inv ex_queue"
    by (simp add: ex_queue_def sem_inv_def word_sle_eq)
  have "notifyWaiters ex_queue = ex_queue"
    using inv notifyWaiters_fifo [of ex_queue "\<lparr>n_w = 5, ready = 0\<rparr>" "\<lparr>n_w = 1, ready = 1\<rparr>"
        "\<lparr>n_w = 1, ready = 2\<rparr>" 3]
    by (simp add: ex_queue_def)
  moreover have "Release 3 ex_queue = Returns (notifyWaiters (ex_queue\<lparr>cur := 0\<rparr>))"
    using notifyWaiters_fifo [of ex_queue "\<lparr>n_w = 5, ready = 0\<rparr>" "\<lparr>n_w = 1, ready = 1\<rparr>"
        "\<lparr>n_w = 1, ready = 2\<rparr>" 3]
    by (simp add: ex_queue_def word_sless_alt)
  ultimately show ?thesis using inv by (simp add: ex_queue_eval(2))
qed

text \<open>
  C9. The cancellation branch of \<open>Acquire\<close>. When the waiter's \<open>ready\<close> channel is
  already closed, the call returns nil and the state, with the granted weight in
  \<open>cur\<close>, is untouched. Otherwise it returns the context's error; the waiter is taken
  out of the queue (with distinct channels no waiter of the resulting queue is this
  one), \<open>size\<close> is unchanged, and \<open>notifyWaiters\<close> runs exactly when the waiter was at
  the front and \<open>cur < size\<close>. A call that queued and was cancelled with nothing in
  between leaves \<open>size\<close>, \<open>cur\<close>, the queue and the closed channels as they were before
  the call (only the channel allocator moved).
\<close>

theorem Acquire_cancel_cases:
  "(r \<in> closed s \<longrightarrow> Acquire_cancel e r s = (None, s))
 \<and> (r \<notin> closed s \<longrightarrow>
      fst (Acquire_cancel e r s) = Some e
    \<and> snd (Acquire_cancel e r s) =
        (if waiters s \<noteq> [] \<and> ready (hd (waiters s)) = r \<and> cur s <s size_s s
         then notifyWaiters (s\<lparr>waiters := Remove r (waiters s)\<rparr>)
         else s\<lparr>waiters := Remove r (waiters s)\<rparr>)
    \<and> size_s (snd (Acquire_cancel e r s)) = size_s s
    \<and> (distinct (map ready (waiters s)) \<longrightarrow>
          r \<notin> ready ` set (waiters (snd (Acquire_cancel e r s)))))
 \<and> (chan_inv s \<and> fst (Acquire_lock k s) = Queued r \<longrightarrow>
      r \<notin> closed (snd (Acquire_lock k s))
    \<and> Acquire_cancel e r (snd (Acquire_lock k s)) = (Some e, s\<lparr>nchan := Suc (nchan s)\<rparr>)
    \<and> Acquire id (Some e) k s = Returns (Some e, s\<lparr>nchan := Suc (nchan s)\<rparr>))"
proof (intro conjI impI)
  show "Acquire_cancel e r s = (None, s)" if "r \<in> closed s"
    using that by (simp add: Acquire_cancel_def)
next
  assume r: "r \<notin> closed s"
  then show "fst (Acquire_cancel e r s) = Some e"
    by (simp add: Acquire_cancel_def Let_def)
  show "snd (Acquire_cancel e r s) =
        (if waiters s \<noteq> [] \<and> ready (hd (waiters s)) = r \<and> cur s <s size_s s
         then notifyWaiters (s\<lparr>waiters := Remove r (waiters s)\<rparr>)
         else s\<lparr>waiters := Remove r (waiters s)\<rparr>)"
    using r by (cases "waiters s") (simp_all add: Acquire_cancel_def Let_def)
  show "size_s (snd (Acquire_cancel e r s)) = size_s s"
    using r notifyWaiters_scan [of "s\<lparr>waiters := Remove r (waiters s)\<rparr>"]
    by (auto simp: Acquire_cancel_def Let_def)
  show "r \<notin> ready ` set (waiters (snd (Acquire_cancel e r s)))"
    if "distinct (map ready (waiters s))"
    using r Remove_gone [OF that, of r]
      notifyWaiters_subset [of "s\<lparr>waiters := Remove r (waiters s)\<rparr>"]
    by (auto simp: Acquire_cancel_def Let_def)
next
  assume a: "chan_inv s \<and> fst (Acquire_lock k s) = Queued r"
  then have q: "r = nchan s"
    "Acquire_lock k s =
       (Queued r, s\<lparr>waiters := waiters s @ [\<lparr>n_w = k, ready = r\<rparr>], nchan := Suc (nchan s)\<rparr>)"
    by (auto simp: Acquire_lock_def split: if_splits)
  have fresh: "r \<notin> ready ` set (waiters s)" "r \<notin> closed s"
    using a q(1) by (auto simp: chan_inv_def list_all_iff)
  show "r \<notin> closed (snd (Acquire_lock k s))"
    using fresh q(2) by simp
  show c: "Acquire_cancel e r (snd (Acquire_lock k s)) = (Some e, s\<lparr>nchan := Suc (nchan s)\<rparr>)"
    using fresh Remove_append_fresh [OF fresh(1), of k]
    by (cases "waiters s")
       (auto simp: q(2) Acquire_cancel_def Let_def notifyWaiters_Nil)
  show "Acquire id (Some e) k s = Returns (Some e, s\<lparr>nchan := Suc (nchan s)\<rparr>)"
    using c by (simp add: Acquire_def q(2))
qed

theorem Acquire_cancel_cases_witness:
  "Acquire_cancel Canceled 0 (ex_queue\<lparr>closed := {0}\<rparr>) = (None, ex_queue\<lparr>closed := {0}\<rparr>)
 \<and> Acquire_cancel Canceled 0 ex_queue =
     (Some Canceled, ex_queue\<lparr>cur := 5, waiters := [], closed := {1, 2}\<rparr>)
 \<and> Acquire_cancel Canceled 1 ex_queue =
     (Some Canceled, ex_queue\<lparr>waiters := [\<lparr>n_w = 5, ready = 0\<rparr>, \<lparr>n_w = 1, ready = 2\<rparr>]\<rparr>)
 \<and> chan_inv ex_queue
 \<and> Acquire id (Some Canceled) 1 ex_queue = Returns (Some Canceled, ex_queue\<lparr>nchan := 4\<rparr>)"
proof -
  have inv: "chan_inv ex_queue"
    by (simp add: ex_queue_def chan_inv_def)
  have q: "fst (Acquire_lock 1 ex_queue) = Queued 3"
    by (simp add: ex_queue_def Acquire_lock_def word_sless_alt)
  have a: "Acquire_cancel Canceled 0 (ex_queue\<lparr>closed := {0}\<rparr>) = (None, ex_queue\<lparr>closed := {0}\<rparr>)"
    using Acquire_cancel_cases [of 0 "ex_queue\<lparr>closed := {0}\<rparr>" Canceled 1] by simp
  have b: "Acquire_cancel Canceled 0 ex_queue =
     (Some Canceled, ex_queue\<lparr>cur := 5, waiters := [], closed := {1, 2}\<rparr>)"
    using Acquire_cancel_cases [of 0 ex_queue Canceled 1] ex_queue_eval(3)
    by (simp add: ex_queue_def word_sless_alt prod_eq_iff)
  have c: "Acquire_cancel Canceled 1 ex_queue =
     (Some Canceled, ex_queue\<lparr>waiters := [\<lparr>n_w = 5, ready = 0\<rparr>, \<lparr>n_w = 1, ready = 2\<rparr>]\<rparr>)"
    using Acquire_cancel_cases [of 1 ex_queue Canceled 1]
    by (simp add: ex_queue_def prod_eq_iff)
  have d: "Acquire id (Some Canceled) 1 ex_queue = Returns (Some Canceled, ex_queue\<lparr>nchan := 4\<rparr>)"
    using Acquire_cancel_cases [of 3 ex_queue Canceled 1] inv q
    by (simp add: ex_queue_def)
  show ?thesis using a b c d inv by simp
qed

section \<open>Properties of the task group\<close>

lemma goroutine_Returns:
  "goroutine r g = Returns g' \<Longrightarrow>
     err g' = (if errOnce g then err g else case r of None \<Rightarrow> err g | Some e \<Rightarrow> Some e)
   \<and> errOnce g' = (errOnce g \<or> r \<noteq> None)"
  by (auto simp: goroutine_def Let_def call_cancel_def split: option.splits if_splits)

lemma run_err:
  "run evs g = Returns g' \<Longrightarrow> (errOnce g \<longleftrightarrow> err g \<noteq> None) \<Longrightarrow>
     err g' = (case err g of Some e \<Rightarrow> Some e | None \<Rightarrow> first_error evs)
   \<and> (errOnce g' \<longleftrightarrow> err g' \<noteq> None)"
proof (induction evs arbitrary: g)
  case Nil
  then show ?case by (auto simp: first_error_def split: option.splits)
next
  case (Cons ev evs)
  then obtain g1 where g1: "step ev g = Returns g1" "run evs g1 = Returns g'"
    by (auto split: fate.splits)
  show ?case
  proof (cases ev)
    case Spawn
    with g1 have "g1 = Go g" by simp
    then have "errOnce g1 = errOnce g" "err g1 = err g" by (simp_all add: Go_def)
    with Cons.IH [OF g1(2)] Cons.prems(2) Spawn show ?thesis
      by (cases "err g") (simp_all add: first_error_def)
  next
    case (Finished r)
    with g1 have "goroutine r g = Returns g1" by simp
    note st = goroutine_Returns [OF this]
    have inv: "errOnce g1 \<longleftrightarrow> err g1 \<noteq> None"
      using st Cons.prems(2) by (auto split: option.splits)
    show ?thesis
      using Cons.IH [OF g1(2) inv] st Cons.prems(2) Finished
      by (cases r; cases "err g") (auto simp: first_error_def split: option.splits)
  qed
qed

lemma run_wg: "run evs g = Returns g' \<Longrightarrow> wg g' = wg g + pending evs"
proof (induction evs arbitrary: g)
  case Nil
  then show ?case by (simp add: pending_def)
next
  case (Cons ev evs)
  then obtain g1 where g1: "step ev g = Returns g1" "run evs g1 = Returns g'"
    by (auto split: fate.splits)
  have "wg g1 = wg g + (if ev = Spawn then 1 else - 1)"
    using g1(1)
    by (cases ev) (auto simp: Go_def goroutine_def Let_def call_cancel_def
                        split: option.splits if_splits)
  with Cons.IH [OF g1(2)] show ?case by (simp add: pending_def)
qed

text \<open>
  C1. Take any run of a fresh group (a zero Group or one of \<open>WithContext\<close>): calls of
  \<open>Go\<close> and tasks finishing, in any order. The counter of the WaitGroup is the number
  of tasks started and not finished; while it is not zero \<open>Wait\<close> blocks. Once
  all have finished, \<open>Wait\<close> returns the error of the first task that finished with an
  error: when exactly one task failed, with \<open>E\<close>, that is \<open>E\<close>, whichever task it was and
  wherever it finished; when several failed, the first in the order of finishing; when
  none failed, nil.
\<close>

theorem Wait_returns_first_error:
  assumes "g0 = zero_Group \<or> g0 = WithContext" and "run evs g0 = Returns g"
  shows "wg g = pending evs
       \<and> (pending evs \<noteq> 0 \<longrightarrow> Wait g = Blocked)
       \<and> (pending evs = 0 \<longrightarrow> Wait g = Returns (first_error evs, call_cancel g))
       \<and> (pending evs = 0 \<and> errors evs = [E] \<longrightarrow> Wait g = Returns (Some E, call_cancel g))
       \<and> (pending evs = 0 \<and> errors evs = e # es \<longrightarrow> Wait g = Returns (Some e, call_cancel g))
       \<and> (pending evs = 0 \<and> errors evs = [] \<longrightarrow> Wait g = Returns (None, call_cancel g))"
proof -
  have "errOnce g0 \<longleftrightarrow> err g0 \<noteq> None" "err g0 = None" "wg g0 = 0"
    using assms(1) by (auto simp: zero_Group_def WithContext_def)
  from run_err [OF assms(2) this(1)] run_wg [OF assms(2)] this(2,3)
  have "err g = first_error evs" "wg g = pending evs" by simp_all
  then show ?thesis
    by (auto simp: Wait_def first_error_def)
qed

theorem Wait_returns_first_error_witness:
  "run ex_run WithContext =
     Returns \<lparr>cancel = Some True, wg = 0, errOnce = True, err = Some ''e2''\<rparr>
 \<and> Wait \<lparr>cancel = Some True, wg = 0, errOnce = True, err = Some ''e2''\<rparr> =
     Returns (Some ''e2'', \<lparr>cancel = Some True, wg = 0, errOnce = True, err = Some ''e2''\<rparr>)
 \<and> run ex_run_one zero_Group =
     Returns \<lparr>cancel = None, wg = 0, errOnce = True, err = Some ''E''\<rparr>
 \<and> Wait \<lparr>cancel = None, wg = 0, errOnce = True, err = Some ''E''\<rparr> =
     Returns (Some ''E'', \<lparr>cancel = None, wg = 0, errOnce = True, err = Some ''E''\<rparr>)"
proof -
  have a: "run ex_run WithContext =
     Returns \<lparr>cancel = Some True, wg = 0, errOnce = True, err = Some ''e2''\<rparr>"
    by (simp add: ex_run_def WithContext_def Go_def goroutine_def call_cancel_def)
  have b: "run ex_run_one zero_Group =
     Returns \<lparr>cancel = None, wg = 0, errOnce = True, err = Some ''E''\<rparr>"
    by (simp add: ex_run_one_def zero_Group_def Go_def goroutine_def call_cancel_def)
  have c: "first_error ex_run = Some ''e2''" "first_error ex_run_one = Some ''E''"
    by (simp_all add: ex_run_def ex_run_one_def first_error_def)
  show ?thesis
    using Wait_returns_first_error [OF _ a, of "''E''" "''E''" "[]"]
      Wait_returns_first_error [OF _ b, of "''E''" "''E''" "[]"]
    by (simp add: a b c call_cancel_def)
qed

section \<open>Properties of duplicate call suppression\<close>

lemma init_m_id: "lookup g k = Some c \<Longrightarrow> init_m g = g"
  by (auto simp: init_m_def lookup_def split: option.splits)

lemma lookup_init_m [simp]: "lookup (init_m g) k = lookup g k"
  by (auto simp: init_m_def lookup_def split: option.splits)

lemma calls_init_m [simp]: "calls (init_m g) = calls g"
  by (auto simp: init_m_def split: option.splits)

lemma ncall_init_m [simp]: "ncall (init_m g) = ncall g"
  by (auto simp: init_m_def split: option.splits)

lemma calls_delete_key [simp]: "calls (delete_key k g) = calls g"
  by (auto simp: delete_key_def split: option.splits)

lemma chan_buf_delete_key [simp]: "chan_buf (delete_key k g) = chan_buf g"
  by (auto simp: delete_key_def split: option.splits)

lemma lookup_delete_key [simp]: "lookup (delete_key k g) k = None"
  by (auto simp: delete_key_def lookup_def split: option.splits)

lemma calls_sends [simp]: "calls (foldl (send res) g chs) = calls g"
  by (induction chs arbitrary: g) (simp_all add: send_def)

lemma m_map_sends [simp]: "m_map (foldl (send res) g chs) = m_map g"
  by (induction chs arbitrary: g) (simp_all add: send_def)

lemma upd_call_Some: "calls g c = Some x \<Longrightarrow> upd_call c f g = g\<lparr>calls := (calls g)(c \<mapsto> f x)\<rparr>"
  by (simp add: upd_call_def)

lemma lookup_calls_upd [simp]: "lookup (g\<lparr>calls := h\<rparr>) k = lookup g k"
  by (simp add: lookup_def)

lemma lookup_nres_upd [simp]: "lookup (g\<lparr>nres := h\<rparr>) k = lookup g k"
  by (simp add: lookup_def)

lemma Do_lock_join:
  "lookup g k = Some c \<Longrightarrow> calls g c = Some x \<Longrightarrow>
     Do_lock k g = (Joined c, g\<lparr>calls := (calls g)(c \<mapsto> x\<lparr>dups := dups x + 1\<rparr>)\<rparr>)"
  by (simp add: Do_lock_def init_m_id upd_call_Some)

lemma DoChan_lock_join:
  "lookup g k = Some c \<Longrightarrow> calls g c = Some x \<Longrightarrow>
     DoChan_lock k g =
       ((Joined c, nres g),
        g\<lparr>nres := Suc (nres g),
          calls := (calls g)(c \<mapsto> x\<lparr>dups := dups x + 1, chans := chans x @ [nres g]\<rparr>)\<rparr>)"
  by (simp add: DoChan_lock_def Let_def init_m_id [of _ k c] upd_call_Some)

lemma Do_lock_start:
  "lookup g k = None \<Longrightarrow>
     fst (Do_lock k g) = Started (ncall g)
   \<and> lookup (snd (Do_lock k g)) k = Some (ncall g)
   \<and> calls (snd (Do_lock k g)) (ncall g) = Some (new_call\<lparr>c_wg := 1\<rparr>)"
  by (auto simp: Do_lock_def Let_def store_key_def init_m_def lookup_def split: option.splits)

text \<open>Joining changes the counter of duplicates and the channels of the call, nothing else of it.\<close>

lemma joins_call:
  "lookup g k = Some c \<Longrightarrow> calls g c = Some x \<Longrightarrow>
     \<exists>chs. lookup (foldl (join k) g js) k = Some c
         \<and> calls (foldl (join k) g js) c =
             Some (x\<lparr>dups := dups x + of_nat (length js), chans := chans x @ chs\<rparr>)
         \<and> length chs = length (filter Not js)"
proof (induction js arbitrary: g x)
  case Nil
  then show ?case by simp
next
  case (Cons j js)
  show ?case
  proof (cases j)
    case True
    have g1: "join k g j = g\<lparr>calls := (calls g)(c \<mapsto> x\<lparr>dups := dups x + 1\<rparr>)\<rparr>"
      using True Do_lock_join [OF Cons.prems] by simp
    have "lookup (join k g j) k = Some c" "calls (join k g j) c = Some (x\<lparr>dups := dups x + 1\<rparr>)"
      using Cons.prems by (simp_all add: g1)
    from Cons.IH [OF this] True show ?thesis by (auto simp: add.assoc)
  next
    case False
    have g1: "join k g j = g\<lparr>nres := Suc (nres g),
          calls := (calls g)(c \<mapsto> x\<lparr>dups := dups x + 1, chans := chans x @ [nres g]\<rparr>)\<rparr>"
      using False DoChan_lock_join [OF Cons.prems] by simp
    have "lookup (join k g j) k = Some c"
      "calls (join k g j) c = Some (x\<lparr>dups := dups x + 1, chans := chans x @ [nres g]\<rparr>)"
      using Cons.prems by (simp_all add: g1)
    from Cons.IH [OF this] obtain chs where
      "lookup (foldl (join k) (join k g j) js) k = Some c"
      "calls (foldl (join k) (join k g j) js) c =
         Some (x\<lparr>dups := dups x + 1 + of_nat (length js), chans := chans x @ [nres g] @ chs\<rparr>)"
      "length chs = length (filter Not js)"
      by auto
    then show ?thesis using False
      by (intro exI [of _ "nres g # chs"]) (simp add: add.assoc)
  qed
qed

lemma doCall_fn_call:
  "calls g c = Some x \<Longrightarrow>
     doCall_fn c out g =
       g\<lparr>calls := (calls g)(c \<mapsto>
           (case out of
              Return v e \<Rightarrow> x\<lparr>val := v, c_err := map_option as_error e, c_wg := c_wg x - 1\<rparr>
            | Panic None st \<Rightarrow> x\<lparr>c_wg := c_wg x - 1\<rparr>
            | Panic (Some v) st \<Rightarrow> x\<lparr>c_err := Some (newPanicError v st), c_wg := c_wg x - 1\<rparr>
            | Goexit \<Rightarrow> x\<lparr>c_err := Some ErrGoexit, c_wg := c_wg x - 1\<rparr>))\<rparr>"
  by (cases out) (auto simp: doCall_fn_def upd_call_Some split: option.splits)

lemma Do_wait_Return:
  "calls g c = Some x \<Longrightarrow> c_wg x = 0 \<Longrightarrow> c_err x = map_option FnError e \<Longrightarrow>
     Do_wait c g = Returns (val x, c_err x, True)"
  by (cases e) (simp_all add: Do_wait_def)

lemma as_error_User [simp]:
  "map_option as_error (map_option UserError e) = map_option FnError e"
  by (cases e) simp_all

text \<open>
  On a signed machine integer a count \<open>n\<close> below \<open>2 ^ (w - 1)\<close> is positive exactly when
  \<open>n\<close> is; from \<open>2 ^ (w - 1)\<close> on the counter has wrapped.
\<close>

lemma sless_of_nat:
  assumes "n < 2 ^ (LENGTH('w::len) - 1)"
  shows "0 <s (of_nat n :: 'w word) \<longleftrightarrow> 0 < n"
proof -
  have "int n < 2 ^ (LENGTH('w) - 1)"
    using assms by (metis of_nat_less_iff of_nat_numeral of_nat_power)
  moreover have "- (2 ^ (LENGTH('w) - 1)) \<le> int n"
    by (rule order_trans [of _ 0]) simp_all
  ultimately have "signed_take_bit (LENGTH('w) - 1) (int n) = int n"
    by (rule signed_take_bit_int_eq_self [rotated])
  then have "sint (of_nat n :: 'w word) = int n"
    by (simp add: signed_of_nat)
  then show ?thesis by (simp add: word_sless_alt)
qed

lemma Do_call_Return:
  assumes "calls g c = Some x"
    and "\<And>s y. calls s c = Some y \<Longrightarrow>
           \<exists>y'. calls (env s) c = Some y' \<and> val y' = val y \<and> c_err y' = c_err y
              \<and> dups y' = dups y + d"
  shows "snd (Do_call env c k (Return v (map_option UserError e)) g) =
           Returns (v, map_option FnError e, 0 <s dups x + d)"
proof -
  let ?g1 = "doCall_fn c (Return v (map_option UserError e)) g"
  have "calls ?g1 c = Some (x\<lparr>val := v, c_err := map_option FnError e, c_wg := c_wg x - 1\<rparr>)"
    using assms(1) by (simp add: doCall_fn_call)
  from assms(2) [OF this] obtain y where y: "calls (env ?g1) c = Some y" "val y = v"
    "c_err y = map_option FnError e" "dups y = dups x + d"
    by auto
  show ?thesis
    using y by (cases e) (simp_all add: Do_call_def doCall_deferred_def Let_def)
qed

lemma joins_started:
  assumes "lookup g k = None"
  shows "\<exists>chs. lookup (foldl (join k) (snd (Do_lock k g)) js) k = Some (ncall g)
       \<and> calls (foldl (join k) (snd (Do_lock k g)) js) (ncall g) =
           Some (new_call\<lparr>c_wg := 1, dups := of_nat (length js), chans := chs\<rparr>)
       \<and> length chs = length (filter Not js)"
proof -
  note st = Do_lock_start [OF assms]
  from joins_call [of "snd (Do_lock k g)" k "ncall g" "new_call\<lparr>c_wg := 1\<rparr>" js] st
  show ?thesis by (auto simp: new_call_def)
qed


lemma newPanicError_is: "\<exists>st'. newPanicError v st = PanicError v st'"
  by (simp add: newPanicError_def Let_def)

lemma Do_wait_Goexit:
  "calls g c = Some y \<Longrightarrow> c_err y = Some ErrGoexit \<Longrightarrow> c_wg y = 0 \<Longrightarrow> Do_wait c g = Goexits"
  by (simp add: Do_wait_def)

lemma deferred_Goexit:
  "calls g c = Some y \<Longrightarrow> c_err y = Some ErrGoexit \<Longrightarrow>
     doCall_deferred c k g = (if forgotten y then g else delete_key k g, Goexits)"
  by (simp add: doCall_deferred_def)

lemma Do_wait_Panic:
  "calls g c = Some y \<Longrightarrow> c_err y = Some (PanicError v st) \<Longrightarrow> c_wg y = 0 \<Longrightarrow>
     Do_wait c g = Panics (PanicError v st)"
  by (simp add: Do_wait_def)

lemma deferred_Panic:
  "calls g c = Some y \<Longrightarrow> c_err y = Some (PanicError v st) \<Longrightarrow>
     doCall_deferred c k g =
       (if forgotten y then g else delete_key k g,
        if chans y = [] then Panics (PanicError v st) else GoPanics (PanicError v st))"
  by (simp add: doCall_deferred_def)


lemma ex_inflight_eq:
  "ex_inflight = \<lparr>m_map = Some [''k'' \<mapsto> 0], calls = [0 \<mapsto> new_call\<lparr>c_wg := 1\<rparr>], ncall = 1,
      chan_buf = (\<lambda>_. []), nres = 0\<rparr>"
  by (simp add: ex_inflight_def Do_lock_def zero_SGroup_def init_m_def lookup_def store_key_def)

lemma ex_joined_eq:
  "ex_joined = \<lparr>m_map = Some [''k'' \<mapsto> 0], calls = [0 \<mapsto> new_call\<lparr>c_wg := 1, dups := 1\<rparr>], ncall = 1,
      chan_buf = (\<lambda>_. []), nres = 0\<rparr>"
  by (simp add: ex_joined_def ex_inflight_eq Do_lock_def init_m_def lookup_def upd_call_def new_call_def)

lemma ex_joined_chan_eq:
  "ex_joined_chan = \<lparr>m_map = Some [''k'' \<mapsto> 0],
      calls = [0 \<mapsto> new_call\<lparr>c_wg := 1, dups := 2, chans := [0]\<rparr>], ncall = 1,
      chan_buf = (\<lambda>_. []), nres = 1\<rparr>"
  by (simp add: ex_joined_chan_def ex_joined_eq DoChan_lock_def init_m_def lookup_def upd_call_def new_call_def)

lemma ex_stack_trim: "newPanicError v ex_stack = PanicError v ''main.fn()''"
  by (simp add: newPanicError_def ex_stack_def)


lemma ex_joins:
  "foldl (join ''k'') ex_inflight [True] = ex_joined"
  "foldl (join ''k'') ex_inflight [True, False] = ex_joined_chan"
  by (simp_all add: ex_joined_def ex_joined_chan_def)

text \<open>
  The zero Group satisfies \<open>reg_inv\<close> and every step keeps it: a call that is in the
  map is never a forgotten one.
\<close>

lemma reg_invI:
  assumes "\<And>k c. lookup g k = Some c \<Longrightarrow> c < ncall g"
    and "\<And>k c. lookup g k = Some c \<Longrightarrow> \<exists>x. calls g c = Some x \<and> \<not> forgotten x"
    and "\<And>k k' c. lookup g k = Some c \<Longrightarrow> lookup g k' = Some c \<Longrightarrow> k = k'"
  shows "reg_inv g"
  unfolding reg_inv_def using assms by blast

lemma reg_invD:
  assumes "reg_inv g" and "lookup g k = Some c"
  shows "c < ncall g" and "\<exists>x. calls g c = Some x \<and> \<not> forgotten x"
    and "lookup g k' = Some c \<Longrightarrow> k = k'"
  using assms unfolding reg_inv_def by blast+

lemma lookup_store_key:
  "m_map g \<noteq> None \<Longrightarrow> lookup (store_key k c g) k' = (if k' = k then Some c else lookup g k')"
  by (auto simp: store_key_def lookup_def)

lemma lookup_delete_key_other:
  "lookup (delete_key k g) k' = (if k' = k then None else lookup g k')"
  by (auto simp: delete_key_def lookup_def split: option.splits)

lemma ncall_delete_key [simp]: "ncall (delete_key k g) = ncall g"
  by (auto simp: delete_key_def split: option.splits)

lemma ncall_sends [simp]: "ncall (foldl (send res) g chs) = ncall g"
  by (induction chs arbitrary: g) (simp_all add: send_def)

lemma lookup_sends [simp]: "lookup (foldl (send res) g chs) k = lookup g k"
  by (simp add: lookup_def)

lemma lookup_upd_call [simp]: "lookup (upd_call c f g) k = lookup g k"
  by (simp add: upd_call_def lookup_def split: option.splits)

lemma ncall_upd_call [simp]: "ncall (upd_call c f g) = ncall g"
  by (simp add: upd_call_def split: option.splits)

lemma calls_upd_call:
  "calls (upd_call c f g) c' = (if c' = c then map_option f (calls g c) else calls g c')"
  by (simp add: upd_call_def split: option.splits)

lemma reg_inv_zero: "reg_inv zero_SGroup"
  by (simp add: reg_inv_def zero_SGroup_def lookup_def)

lemma reg_inv_frame:
  assumes "reg_inv g" and "\<And>k. lookup h k = lookup g k" and "ncall h = ncall g"
    and "calls h = calls g"
  shows "reg_inv h"
  using assms unfolding reg_inv_def by simp

lemma reg_inv_upd:
  assumes "reg_inv g" and "\<And>x. forgotten (f x) = forgotten x"
  shows "reg_inv (upd_call c f g)"
proof (rule reg_invI)
  fix k c' assume l: "lookup (upd_call c f g) k = Some c'"
  then have l': "lookup g k = Some c'" by simp
  show "c' < ncall (upd_call c f g)" using reg_invD(1) [OF assms(1) l'] by simp
  from reg_invD(2) [OF assms(1) l'] obtain x where "calls g c' = Some x" "\<not> forgotten x"
    by blast
  then show "\<exists>x. calls (upd_call c f g) c' = Some x \<and> \<not> forgotten x"
    using assms(2) by (cases "c' = c") (simp_all add: calls_upd_call)
next
  fix k k' c' assume "lookup (upd_call c f g) k = Some c'" "lookup (upd_call c f g) k' = Some c'"
  then show "k = k'" using reg_invD(3) [OF assms(1)] by simp
qed

lemma reg_inv_start:
  assumes "reg_inv g" and "lookup g k = None" and "m_map g \<noteq> None" and "\<not> forgotten x"
  shows "reg_inv (store_key k (ncall g) (g\<lparr>calls := (calls g)(ncall g \<mapsto> x), ncall := Suc (ncall g)\<rparr>))"
    (is "reg_inv ?h")
proof -
  let ?g = "g\<lparr>calls := (calls g)(ncall g \<mapsto> x), ncall := Suc (ncall g)\<rparr>"
  have m: "m_map ?g \<noteq> None" using assms(3) by simp
  have l: "lookup ?h k' = (if k' = k then Some (ncall g) else lookup g k')" for k'
    using lookup_store_key [OF m, of k "ncall g" k'] by (simp add: lookup_def)
  have n: "ncall ?h = Suc (ncall g)" "calls ?h = (calls g)(ncall g \<mapsto> x)"
    using assms(3) by (auto simp: store_key_def)
  show ?thesis
  proof (rule reg_invI)
    fix k' c assume a: "lookup ?h k' = Some c"
    show "c < ncall ?h"
      using a reg_invD(1) [OF assms(1), of k' c] by (auto simp: l n split: if_splits)
    show "\<exists>y. calls ?h c = Some y \<and> \<not> forgotten y"
    proof (cases "k' = k")
      case True
      then have "c = ncall g" using a by (simp add: l)
      then show ?thesis using assms(4) by (simp add: n)
    next
      case False
      then have lg: "lookup g k' = Some c" using a by (simp add: l)
      then have "c \<noteq> ncall g" using reg_invD(1) [OF assms(1) lg] by simp
      then show ?thesis using reg_invD(2) [OF assms(1) lg] by (simp add: n)
    qed
  next
    fix k1 k2 c assume a: "lookup ?h k1 = Some c" "lookup ?h k2 = Some c"
    have ne: "lookup g k' \<noteq> Some (ncall g)" for k'
      using reg_invD(1) [OF assms(1), of k' "ncall g"] by auto
    show "k1 = k2"
      using a ne reg_invD(3) [OF assms(1), of k1 c k2]
      by (auto simp: l split: if_splits)
  qed
qed

lemma reg_inv_init_m: "reg_inv g \<Longrightarrow> reg_inv (init_m g)"
  by (rule reg_inv_frame) simp_all

lemma m_map_init_m: "m_map (init_m g) \<noteq> None"
  by (auto simp: init_m_def split: option.splits)

lemma reg_inv_Do_lock: "reg_inv g \<Longrightarrow> reg_inv (snd (Do_lock k g))"
proof -
  assume a: "reg_inv g"
  note i = reg_inv_init_m [OF a]
  show ?thesis
  proof (cases "lookup (init_m g) k")
    case None
    then show ?thesis
      using reg_inv_start [OF i None m_map_init_m, of "new_call\<lparr>c_wg := 1\<rparr>"]
      by (simp add: Do_lock_def Let_def new_call_def)
  next
    case (Some c)
    then show ?thesis
      using reg_inv_upd [OF i, of "\<lambda>x. x\<lparr>dups := dups x + 1\<rparr>" c]
      by (simp add: Do_lock_def Let_def)
  qed
qed

lemma reg_inv_DoChan_lock: "reg_inv g \<Longrightarrow> reg_inv (snd (DoChan_lock k g))"
proof -
  assume a: "reg_inv g"
  let ?g = "init_m (g\<lparr>nres := Suc (nres g)\<rparr>)"
  have "reg_inv (g\<lparr>nres := Suc (nres g)\<rparr>)"
    by (rule reg_inv_frame [OF a]) simp_all
  note i = reg_inv_init_m [OF this]
  show ?thesis
  proof (cases "lookup ?g k")
    case None
    then show ?thesis
      using reg_inv_start [OF i None m_map_init_m, of "new_call\<lparr>chans := [nres g], c_wg := 1\<rparr>"]
      by (simp add: DoChan_lock_def Let_def new_call_def)
  next
    case (Some c)
    then show ?thesis
      using reg_inv_upd [OF i, of "\<lambda>x. x\<lparr>dups := dups x + 1, chans := chans x @ [nres g]\<rparr>" c]
      by (simp add: DoChan_lock_def Let_def)
  qed
qed

lemma reg_inv_delete: "reg_inv g \<Longrightarrow> reg_inv (delete_key k g)"
proof (rule reg_invI)
  assume a: "reg_inv g"
  fix k' c assume l: "lookup (delete_key k g) k' = Some c"
  then have l': "lookup g k' = Some c" by (simp add: lookup_delete_key_other split: if_splits)
  show "c < ncall (delete_key k g)" using reg_invD(1) [OF a l'] by simp
  show "\<exists>x. calls (delete_key k g) c = Some x \<and> \<not> forgotten x"
    using reg_invD(2) [OF a l'] by simp
next
  assume a: "reg_inv g"
  fix k1 k2 c assume "lookup (delete_key k g) k1 = Some c" "lookup (delete_key k g) k2 = Some c"
  then show "k1 = k2"
    using reg_invD(3) [OF a, of k1 c k2]
    by (simp add: lookup_delete_key_other split: if_splits)
qed

text \<open>
  \<open>Forget\<close> marks a call that is in the map, and takes it out of the map at once: the
  calls that stay in the map are not forgotten.
\<close>

lemma reg_inv_Forget: "reg_inv g \<Longrightarrow> reg_inv (Forget k g)"
proof (cases "lookup g k")
  case None
  assume "reg_inv g"
  with None show ?thesis by (simp add: Forget_def reg_inv_delete)
next
  case (Some c)
  assume a: "reg_inv g"
  let ?h = "upd_call c (\<lambda>x. x\<lparr>forgotten := True\<rparr>) g"
  have f: "Forget k g = delete_key k ?h"
    using Some by (simp add: Forget_def)
  show ?thesis
  proof (rule reg_invI)
    fix k' c' assume l: "lookup (Forget k g) k' = Some c'"
    then have ne: "k' \<noteq> k" and l': "lookup g k' = Some c'"
      by (simp_all add: f lookup_delete_key_other split: if_splits)
    show "c' < ncall (Forget k g)" using reg_invD(1) [OF a l'] by (simp add: f)
    have "c' \<noteq> c" using reg_invD(3) [OF a l', of k] Some ne by auto
    then show "\<exists>x. calls (Forget k g) c' = Some x \<and> \<not> forgotten x"
      using reg_invD(2) [OF a l'] by (simp add: f calls_upd_call)
  next
    fix k1 k2 c' assume "lookup (Forget k g) k1 = Some c'" "lookup (Forget k g) k2 = Some c'"
    then show "k1 = k2"
      using reg_invD(3) [OF a, of k1 c' k2]
      by (simp add: f lookup_delete_key_other split: if_splits)
  qed
qed

lemma run_fn_forgotten: "forgotten (fst (run_fn out x)) = forgotten x"
  by (cases out) (auto split: option.splits)

lemma reg_inv_doCall_fn: "reg_inv g \<Longrightarrow> reg_inv (doCall_fn c out g)"
  unfolding doCall_fn_def
proof (rule reg_inv_upd)
  fix x :: "('a, 'b, 'c) call"
  show "forgotten (case run_fn out x of
               (x1, normalReturn, recovered) \<Rightarrow>
                 let x2 = (if \<not> normalReturn \<and> \<not> recovered then x1\<lparr>c_err := Some ErrGoexit\<rparr>
                           else x1)
                 in x2\<lparr>c_wg := c_wg x2 - 1\<rparr>) = forgotten x"
    using run_fn_forgotten [of out x] by (auto split: prod.splits simp: Let_def)
qed

lemma reg_inv_sends: "reg_inv h \<Longrightarrow> reg_inv (foldl (send res) h chs)"
  by (rule reg_inv_frame) simp_all

lemma reg_inv_doCall_deferred: "reg_inv g \<Longrightarrow> reg_inv (fst (doCall_deferred c k g))"
proof -
  assume a: "reg_inv g"
  show ?thesis
    using a reg_inv_delete [OF a, of k] reg_inv_sends
    by (auto simp: doCall_deferred_def Let_def split: option.splits error_sf.splits)
qed

text \<open>
  C2, as stated, fails, in three ways. A caller of \<open>Do\<close> that joined a call whose
  function panics does not receive the stored pair with \<open>shared = true\<close>: the panic is
  raised in it. The same happens after a normal return, when the function returned a
  \<open>*panicError\<close> it had recovered earlier. And \<open>c.dups\<close> is a machine integer: after
  \<open>2 ^ 63\<close> callers joined a call on a 64-bit platform, \<open>c.dups > 0\<close> is false and the
  caller that started the call returns \<open>shared = false\<close>.
\<close>

theorem Do_duplicate_panics_counterexample:
  "fst (Do_lock ''k'' ex_inflight) = Joined 0
 \<and> Do_wait 0 ex_joined = Blocked
 \<and> Do_wait 0 (doCall_fn 0 (Panic (Some ''boom'') ex_stack) ex_joined) =
     Panics (PanicError ''boom'' ''main.fn()'')
 \<and> Do_wait 0 (doCall_fn 0 (Panic (Some ''boom'') ex_stack) ex_joined) \<noteq>
     Returns (None, Some (PanicError ''boom'' ''main.fn()''), True)
 \<and> Do_wait 0 (doCall_fn 0 (Return None (Some (RecoveredPanic ''boom'' ''main.fn()''))) ex_joined) =
     Panics (PanicError ''boom'' ''main.fn()'')
 \<and> snd (Do_call id 0 ''k'' (Return (Some ''bar'') None) (foldl (join ''k'') ex_inflight ex_many)) =
     Returns (Some ''bar'', None, False)"
proof -
  have a: "fst (Do_lock ''k'' ex_inflight) = Joined 0
   \<and> Do_wait 0 ex_joined = Blocked
   \<and> Do_wait 0 (doCall_fn 0 (Panic (Some ''boom'') ex_stack) ex_joined) =
       Panics (PanicError ''boom'' ''main.fn()'')
   \<and> Do_wait 0 (doCall_fn 0 (Return None (Some (RecoveredPanic ''boom'' ''main.fn()''))) ex_joined) =
       Panics (PanicError ''boom'' ''main.fn()'')"
    by (simp add: ex_inflight_eq ex_joined_eq Do_lock_def init_m_def lookup_def upd_call_def
        new_call_def Do_wait_def doCall_fn_def ex_stack_trim)
  have z: "lookup (zero_SGroup :: (string, string, 64 word) SGroup) ''k'' = None"
    "ncall (zero_SGroup :: (string, string, 64 word) SGroup) = 0"
    by (simp_all add: zero_SGroup_def lookup_def)
  from joins_started [OF z(1), of ex_many] obtain chs where
    "calls (foldl (join ''k'') ex_inflight ex_many) 0 =
       Some (new_call\<lparr>c_wg := 1, dups := of_nat (length ex_many), chans := chs\<rparr>)"
    unfolding z(2) ex_inflight_def by blast
  from Do_call_Return [OF this, of id 0 "''k''" "Some ''bar''" None]
  have "snd (Do_call id 0 ''k'' (Return (Some ''bar'') None) (foldl (join ''k'') ex_inflight ex_many)) =
     Returns (Some ''bar'', None, 0 <s (of_nat (length ex_many) :: 64 word))"
    by simp
  moreover have "\<not> 0 <s (of_nat (length ex_many) :: 64 word)"
    by (simp add: ex_many_def word_sless_alt)
  ultimately show ?thesis using a by simp
qed

text \<open>
  C2, amended. A caller of \<open>Do\<close> that finds a call under its key joins it: it only
  counts itself in \<open>dups\<close>, never runs its own function (its result does not depend on
  how that function would end), and blocks while the call's counter is not zero. When
  the stored error is nil or an error of the user's, the joined caller returns exactly
  the stored pair with \<open>shared = true\<close>; that is the pair \<open>(v, e)\<close> when the call's
  function returned \<open>(v, e)\<close> with \<open>e\<close> nil or an error of the user's. When the function
  returned a recovered \<open>*panicError\<close>, the joined caller panics with it, and so does the
  caller that started the call (in a fresh goroutine when the call has a channel). The
  caller that started the call, when its function returns \<open>(v, e)\<close> with such an \<open>e\<close>,
  returns \<open>(v, e)\<close> and \<open>c.dups > 0\<close>, where \<open>c.dups\<close> is the number of callers of \<open>Do\<close> or
  \<open>DoChan\<close> that joined, before the function ended (\<open>js\<close>) or between \<open>wg.Done\<close> and the
  deletion of the key (\<open>js'\<close>), counted in a signed integer of \<open>w\<close> bits: with fewer than
  \<open>2 ^ (w - 1)\<close> of them, \<open>shared\<close> is true exactly when some caller joined.
\<close>

theorem Do_duplicates_share:
  "(lookup (g :: ('v, 'e, 'w::len word) SGroup) k = Some c \<and> calls g c = Some x \<longrightarrow>
      Do_lock k g = (Joined c, g\<lparr>calls := (calls g)(c \<mapsto> x\<lparr>dups := dups x + 1\<rparr>)\<rparr>)
    \<and> Do enva envb k out g = (enva (snd (Do_lock k g)), Do_wait c (enva (snd (Do_lock k g))))
    \<and> (c_wg x \<noteq> 0 \<longrightarrow> Do_wait c (snd (Do_lock k g)) = Blocked)
    \<and> (c_wg x = 0 \<and> c_err x = map_option FnError e \<longrightarrow>
         Do_wait c (snd (Do_lock k g)) = Returns (val x, c_err x, True))
    \<and> (c_wg x = 1 \<longrightarrow>
         Do_wait c (doCall_fn c (Return v (map_option UserError e)) (snd (Do_lock k g))) =
           Returns (v, map_option FnError e, True))
    \<and> (c_wg x = 1 \<longrightarrow>
         Do_wait c (doCall_fn c (Return v (Some (RecoveredPanic p st))) (snd (Do_lock k g))) =
           Panics (PanicError p st)))
 \<and> (lookup g k = None \<longrightarrow>
      fst (Do_lock k g) = Started (ncall g)
    \<and> lookup (foldl (join k) (snd (Do_lock k g)) js) k = Some (ncall g)
    \<and> snd (Do_call (\<lambda>s. foldl (join k) s js') (ncall g) k (Return v (map_option UserError e))
             (foldl (join k) (snd (Do_lock k g)) js)) =
        Returns (v, map_option FnError e, 0 <s (of_nat (length js + length js') :: 'w word))
    \<and> (length js + length js' < 2 ^ (LENGTH('w) - 1) \<longrightarrow>
        snd (Do_call (\<lambda>s. foldl (join k) s js') (ncall g) k (Return v (map_option UserError e))
             (foldl (join k) (snd (Do_lock k g)) js)) =
        Returns (v, map_option FnError e, js \<noteq> [] \<or> js' \<noteq> []))
    \<and> (length js < 2 ^ (LENGTH('w) - 1) \<longrightarrow>
        snd (Do_call id (ncall g) k (Return v (map_option UserError e))
             (foldl (join k) (snd (Do_lock k g)) js)) =
        Returns (v, map_option FnError e, js \<noteq> []))
    \<and> Do_wait (ncall g)
        (doCall_fn (ncall g) (Return v (map_option UserError e))
           (foldl (join k) (snd (Do_lock k g)) js)) =
        Returns (v, map_option FnError e, True)
    \<and> snd (Do_call id (ncall g) k (Return v (Some (RecoveredPanic p st)))
             (foldl (join k) (snd (Do_lock k g)) js)) =
        (if list_all (\<lambda>j. j) js then Panics (PanicError p st) else GoPanics (PanicError p st)))"
proof (intro conjI impI)
  assume a: "lookup g k = Some c \<and> calls g c = Some x"
  then have j: "Do_lock k g = (Joined c, g\<lparr>calls := (calls g)(c \<mapsto> x\<lparr>dups := dups x + 1\<rparr>)\<rparr>)"
    by (simp add: Do_lock_join)
  then show "Do_lock k g = (Joined c, g\<lparr>calls := (calls g)(c \<mapsto> x\<lparr>dups := dups x + 1\<rparr>)\<rparr>)" .
  show "Do enva envb k out g = (enva (snd (Do_lock k g)), Do_wait c (enva (snd (Do_lock k g))))"
    by (simp add: Do_def j)
  show "Do_wait c (snd (Do_lock k g)) = Blocked" if "c_wg x \<noteq> 0"
    using that by (simp add: j Do_wait_def)
  show "Do_wait c (snd (Do_lock k g)) = Returns (val x, c_err x, True)"
    if "c_wg x = 0 \<and> c_err x = map_option FnError e"
    using that Do_wait_Return [of "snd (Do_lock k g)" c "x\<lparr>dups := dups x + 1\<rparr>" e]
    by (simp add: j)
  show "Do_wait c (doCall_fn c (Return v (map_option UserError e)) (snd (Do_lock k g))) =
           Returns (v, map_option FnError e, True)" if "c_wg x = 1"
    using that
      Do_wait_Return [of "doCall_fn c (Return v (map_option UserError e)) (snd (Do_lock k g))" c
        "x\<lparr>dups := dups x + 1, val := v, c_err := map_option FnError e, c_wg := 0\<rparr>" e]
    by (simp add: j doCall_fn_call)
  show "Do_wait c (doCall_fn c (Return v (Some (RecoveredPanic p st))) (snd (Do_lock k g))) =
           Panics (PanicError p st)" if "c_wg x = 1"
    using that
      Do_wait_Panic [of "doCall_fn c (Return v (Some (RecoveredPanic p st))) (snd (Do_lock k g))" c
        "x\<lparr>dups := dups x + 1, val := v, c_err := Some (PanicError p st), c_wg := 0\<rparr>" p st]
    by (simp add: j doCall_fn_call)
next
  assume n: "lookup g k = None"
  let ?c = "ncall g"
  let ?g1 = "foldl (join k) (snd (Do_lock k g)) js"
  let ?r = "Return v (map_option UserError e) :: ('v, 'e) outcome"
  from joins_started [OF n, of js] obtain chs where
    g1: "lookup ?g1 k = Some ?c"
        "calls ?g1 ?c = Some (new_call\<lparr>c_wg := 1, dups := of_nat (length js), chans := chs\<rparr>)"
    and chs: "length chs = length (filter Not js)"
    by blast
  show "fst (Do_lock k g) = Started ?c" using Do_lock_start [OF n] by simp
  show "lookup ?g1 k = Some ?c" by (rule g1(1))
  have early: "snd (Do_call id ?c k ?r ?g1) =
          Returns (v, map_option FnError e, 0 <s (of_nat (length js) :: 'w word))"
    using Do_call_Return [OF g1(2), of id 0 k v e] by simp
  show "snd (Do_call id ?c k ?r ?g1) = Returns (v, map_option FnError e, js \<noteq> [])"
    if "length js < 2 ^ (LENGTH('w) - 1)"
    using early sless_of_nat [OF that] by simp
  have late: "\<exists>y'. calls (foldl (join k) s js') ?c = Some y' \<and> val y' = val y \<and> c_err y' = c_err y
              \<and> dups y' = dups y + of_nat (length js')"
    if "calls s ?c = Some y" "lookup s k = Some ?c" for s :: "('v, 'e, 'w word) SGroup" and y
    using joins_call [OF that(2) that(1), of js'] by auto
  let ?g2 = "doCall_fn ?c ?r ?g1"
  have g2: "calls ?g2 ?c =
      Some (new_call\<lparr>c_wg := 0, dups := of_nat (length js), chans := chs, val := v,
                     c_err := map_option FnError e\<rparr>)" "lookup ?g2 k = Some ?c"
    using g1 by (simp_all add: doCall_fn_call new_call_def)
  from late [OF g2] obtain y where y: "calls (foldl (join k) ?g2 js') ?c = Some y" "val y = v"
    "c_err y = map_option FnError e" "dups y = of_nat (length js) + of_nat (length js')"
    by auto
  show both: "snd (Do_call (\<lambda>s. foldl (join k) s js') ?c k ?r ?g1) =
        Returns (v, map_option FnError e, 0 <s (of_nat (length js + length js') :: 'w word))"
    using y by (cases e) (simp_all add: Do_call_def doCall_deferred_def Let_def)
  show "snd (Do_call (\<lambda>s. foldl (join k) s js') ?c k ?r ?g1) =
        Returns (v, map_option FnError e, js \<noteq> [] \<or> js' \<noteq> [])"
    if "length js + length js' < 2 ^ (LENGTH('w) - 1)"
    using both sless_of_nat [OF that] by simp
  show "Do_wait ?c ?g2 = Returns (v, map_option FnError e, True)"
    using Do_wait_Return [OF g2(1), of e] by simp
  let ?y = "new_call\<lparr>c_wg := 0, dups := of_nat (length js), chans := chs, val := v,
                     c_err := Some (PanicError p st)\<rparr> :: ('v, 'e, 'w word) call"
  let ?g3 = "doCall_fn ?c (Return v (Some (RecoveredPanic p st))) ?g1"
  have g3: "calls ?g3 ?c = Some ?y"
    using g1 by (simp add: doCall_fn_call new_call_def)
  have e: "chs = [] \<longleftrightarrow> list_all (\<lambda>j. j) js"
    using chs by (auto simp: list_all_iff filter_empty_conv)
  have d: "doCall_deferred ?c k ?g3 =
       (delete_key k ?g3,
        if chs = [] then Panics (PanicError p st) else GoPanics (PanicError p st))"
    using deferred_Panic [OF g3, of p st k] by (simp add: new_call_def)
  show "snd (Do_call id ?c k (Return v (Some (RecoveredPanic p st))) ?g1) =
        (if list_all (\<lambda>j. j) js then Panics (PanicError p st) else GoPanics (PanicError p st))"
    using e by (simp add: Do_call_def d)
qed

theorem Do_duplicates_share_witness:
  "lookup ex_inflight ''k'' = Some 0
 \<and> Do_lock ''k'' ex_inflight = (Joined 0, ex_joined)
 \<and> Do_wait 0 ex_joined = Blocked
 \<and> Do_wait 0 (doCall_fn 0 (Return (Some ''bar'') (Some (UserError ''failed''))) ex_joined) =
     Returns (Some ''bar'', Some (FnError ''failed''), True)
 \<and> snd (Do_call id 0 ''k'' (Return (Some ''bar'') (Some (UserError ''failed''))) ex_joined) =
     Returns (Some ''bar'', Some (FnError ''failed''), True)
 \<and> snd (Do_call id 0 ''k'' (Return (Some ''bar'') None) ex_inflight) =
     Returns (Some ''bar'', None, False)"
proof -
  have z: "lookup (zero_SGroup :: (string, string, 64 word) SGroup) ''k'' = None"
    by (simp add: zero_SGroup_def lookup_def)
  have l: "lookup ex_inflight ''k'' = Some 0" "calls ex_inflight 0 = Some (new_call\<lparr>c_wg := 1\<rparr>)"
    by (simp_all add: ex_inflight_eq lookup_def)
  note a = Do_duplicates_share [where g = ex_inflight and k = "''k''" and c = 0
      and x = "new_call\<lparr>c_wg := 1\<rparr>" and v = "Some ''bar''" and e = "Some ''failed''"
      and enva = id and envb = id and out = Goexit and js = "[]" and js' = "[]"
      and p = "''p''" and st = "[]"]
  note b = Do_duplicates_share [where g = "zero_SGroup :: (string, string, 64 word) SGroup"
      and k = "''k''" and js = "[True]" and v = "Some ''bar''" and e = "Some ''failed''"
      and c = 0 and x = new_call and enva = id and envb = id and out = Goexit and js' = "[]"
      and p = "''p''" and st = "[]"]
  note c = Do_duplicates_share [where g = "zero_SGroup :: (string, string, 64 word) SGroup"
      and k = "''k''" and js = "[]" and v = "Some ''bar''" and e = None
      and c = 0 and x = new_call and enva = id and envb = id and out = Goexit and js' = "[]"
      and p = "''p''" and st = "[]"]
  have j: "Do_lock ''k'' ex_inflight = (Joined 0, ex_joined)"
    using a l by (simp add: ex_joined_def prod_eq_iff)
  have w: "Do_wait 0 ex_joined = Blocked"
    "Do_wait 0 (doCall_fn 0 (Return (Some ''bar'') (Some (UserError ''failed''))) ex_joined) =
       Returns (Some ''bar'', Some (FnError ''failed''), True)"
    using a l by (auto simp: ex_joined_def new_call_def)
  have o: "snd (Do_call id 0 ''k'' (Return (Some ''bar'') (Some (UserError ''failed''))) ex_joined) =
       Returns (Some ''bar'', Some (FnError ''failed''), True)"
    using b z by (simp add: ex_joined_def ex_inflight_def zero_SGroup_def)
  have s: "snd (Do_call id 0 ''k'' (Return (Some ''bar'') None) ex_inflight) =
       Returns (Some ''bar'', None, False)"
    using c z by (simp add: ex_inflight_def zero_SGroup_def)
  show ?thesis using l(1) j w o s by simp
qed

text \<open>
  C3, as stated, fails: \<open>Forget\<close> sets the flag of the call under the key and deletes
  the key in the same critical section. The call is not reused: the next caller for the
  key starts a call of its own, before and after the forgotten call has completed.
\<close>

theorem Forget_not_retained_counterexample:
  "lookup ex_inflight ''k'' = Some 0
 \<and> map_option forgotten (calls (Forget ''k'' ex_inflight) 0) = Some True
 \<and> lookup (Forget ''k'' ex_inflight) ''k'' = None
 \<and> fst (Do_lock ''k'' (Forget ''k'' ex_inflight)) = Started 1
 \<and> fst (Do_lock ''k'' (fst (doCall_deferred 0 ''k''
          (doCall_fn 0 (Return (Some ''v'') None) (Forget ''k'' ex_inflight))))) = Started 1"
  by (simp add: ex_inflight_eq Forget_def Do_lock_def init_m_def lookup_def upd_call_def
      new_call_def delete_key_def doCall_fn_def doCall_deferred_def store_key_def)

text \<open>
  C3, amended. \<open>Forget\<close> on a key with no call is a no-op. On a key with a call it sets
  the call's flag and removes the key from the map, so the next caller of \<open>Do\<close> or
  \<open>DoChan\<close> for the key starts a new call instead of joining. What the flag does: when
  a forgotten call completes, the map is left as it is (a newer call registered under
  the key stays), whereas a call that was not forgotten deletes its key on completion.
\<close>

theorem Forget_drops_entry:
  "(lookup g k = None \<longrightarrow> Forget k g = g)
 \<and> (lookup g k = Some c \<and> calls g c = Some x \<longrightarrow>
       calls (Forget k g) = (calls g)(c \<mapsto> x\<lparr>forgotten := True\<rparr>)
     \<and> lookup (Forget k g) k = None
     \<and> fst (Do_lock k (Forget k g)) = Started (ncall g)
     \<and> fst (fst (DoChan_lock k (Forget k g))) = Started (ncall g))
 \<and> (calls g c = Some x \<and> forgotten x \<longrightarrow> m_map (fst (doCall_deferred c k g)) = m_map g)
 \<and> (calls g c = Some x \<and> \<not> forgotten x \<longrightarrow> lookup (fst (doCall_deferred c k g)) k = None)"
proof (intro conjI impI)
  show "Forget k g = g" if "lookup g k = None"
  proof (cases "m_map g")
    case None
    then show ?thesis using that by (simp add: Forget_def delete_key_def)
  next
    case (Some mp)
    with that have "mp k = None" by (simp add: lookup_def)
    then have "mp(k := None) = mp" by (simp add: fun_upd_idem_iff)
    with Some that show ?thesis by (simp add: Forget_def delete_key_def)
  qed
next
  assume a: "lookup g k = Some c \<and> calls g c = Some x"
  then have f: "Forget k g = delete_key k (g\<lparr>calls := (calls g)(c \<mapsto> x\<lparr>forgotten := True\<rparr>)\<rparr>)"
    by (simp add: Forget_def upd_call_Some)
  show "calls (Forget k g) = (calls g)(c \<mapsto> x\<lparr>forgotten := True\<rparr>)" by (simp add: f)
  show l: "lookup (Forget k g) k = None" by (simp add: f)
  have nc: "ncall (Forget k g) = ncall g"
    by (auto simp: f delete_key_def split: option.splits)
  show "fst (Do_lock k (Forget k g)) = Started (ncall g)"
    using Do_lock_start [OF l] nc by simp
  show "fst (fst (DoChan_lock k (Forget k g))) = Started (ncall g)"
    using l nc by (simp add: DoChan_lock_def Let_def)
next
  show "m_map (fst (doCall_deferred c k g)) = m_map g" if "calls g c = Some x \<and> forgotten x"
    using that
    by (auto simp: doCall_deferred_def Let_def split: option.splits error_sf.splits)
  show "lookup (fst (doCall_deferred c k g)) k = None" if "calls g c = Some x \<and> \<not> forgotten x"
    using that
    by (auto simp: doCall_deferred_def Let_def lookup_def delete_key_def
             split: option.splits error_sf.splits)
qed

theorem Forget_drops_entry_witness:
  "Forget ''k'' (zero_SGroup :: (string, string, 64 word) SGroup) = zero_SGroup
 \<and> lookup ex_inflight ''k'' = Some 0
 \<and> lookup (Forget ''k'' ex_inflight) ''k'' = None
 \<and> fst (fst (DoChan_lock ''k'' (Forget ''k'' ex_inflight))) = Started 1
 \<and> lookup (fst (doCall_deferred 0 ''k''
      (doCall_fn 0 (Return None None) (snd (DoChan_lock ''k'' (Forget ''k'' ex_inflight)))))) ''k''
    = Some 1
 \<and> lookup (fst (doCall_deferred 0 ''k'' (doCall_fn 0 (Return None None) ex_inflight))) ''k'' = None"
proof -
  have z: "lookup (zero_SGroup :: (string, string, 64 word) SGroup) ''k'' = None"
    by (simp add: zero_SGroup_def lookup_def)
  have l: "lookup ex_inflight ''k'' = Some 0" "calls ex_inflight 0 = Some (new_call\<lparr>c_wg := 1\<rparr>)"
    by (simp_all add: ex_inflight_eq lookup_def)
  note a = Forget_drops_entry [where g = "zero_SGroup :: (string, string, 64 word) SGroup" and k = "''k''"
      and c = 0 and x = new_call]
  note b = Forget_drops_entry [where g = ex_inflight and k = "''k''" and c = 0
      and x = "new_call\<lparr>c_wg := 1\<rparr>"]
  have n: "ncall ex_inflight = 1" by (simp add: ex_inflight_eq)
  have 1: "Forget ''k'' (zero_SGroup :: (string, string, 64 word) SGroup) = zero_SGroup"
    using a z by simp
  have 2: "lookup (Forget ''k'' ex_inflight) ''k'' = None"
    "fst (fst (DoChan_lock ''k'' (Forget ''k'' ex_inflight))) = Started 1"
    using b l n by simp_all
  have 3: "lookup (fst (doCall_deferred 0 ''k''
      (doCall_fn 0 (Return None None) (snd (DoChan_lock ''k'' (Forget ''k'' ex_inflight)))))) ''k''
    = Some 1"
    by (simp add: ex_inflight_eq Forget_def DoChan_lock_def init_m_def lookup_def upd_call_def
        new_call_def delete_key_def doCall_fn_def doCall_deferred_def store_key_def send_def)
  have 4: "lookup (fst (doCall_deferred 0 ''k'' (doCall_fn 0 (Return None None) ex_inflight))) ''k''
    = None"
    by (simp add: ex_inflight_eq lookup_def upd_call_def
        new_call_def delete_key_def doCall_fn_def doCall_deferred_def)
  show ?thesis using 1 l(1) 2 3 4 by simp
qed

text \<open>
  C4, as stated, fails: when the function called \<open>runtime.Goexit\<close>, a joined caller of
  \<open>Do\<close> is not handed an error, its goroutine ends as well; nothing is sent on the
  channel of a caller of \<open>DoChan\<close>; the caller that started the call does not return.
\<close>

theorem Goexit_not_reported_counterexample:
  "Do_wait 0 (doCall_fn 0 Goexit ex_joined_chan) = Goexits
 \<and> snd (doCall_deferred 0 ''k'' (doCall_fn 0 Goexit ex_joined_chan)) = Goexits
 \<and> chan_buf (fst (doCall_deferred 0 ''k'' (doCall_fn 0 Goexit ex_joined_chan))) 0 = []
 \<and> snd (Do_call id 0 ''k'' Goexit ex_joined_chan) = Goexits"
  by (simp add: ex_joined_chan_eq Do_call_def init_m_def lookup_def upd_call_def
      new_call_def delete_key_def doCall_fn_def doCall_deferred_def Do_wait_def)

text \<open>
  C4, amended. When the function ends through \<open>runtime.Goexit\<close>, the call records the
  fixed error \<open>errGoexit\<close>, which is neither a \<open>panicError\<close> nor an error the function
  can return. No caller receives it: a joined caller of \<open>Do\<close> leaves through
  \<open>runtime.Goexit\<close> itself once the counter is zero, the goroutine that ran the function
  goes on exiting (so \<open>Do\<close> does not return in it), and the deferred function sends
  nothing on the channels. No panic is raised anywhere.
\<close>

theorem Goexit_ends_joiners:
  "(calls g c = Some x \<longrightarrow>
      calls (doCall_fn c Goexit g) = (calls g)(c \<mapsto> x\<lparr>c_err := Some ErrGoexit, c_wg := c_wg x - 1\<rparr>))
 \<and> (calls g c = Some y \<and> c_err y = Some ErrGoexit \<longrightarrow>
      (c_wg y = 0 \<longrightarrow> Do_wait c g = Goexits)
    \<and> doCall_deferred c k g = (if forgotten y then g else delete_key k g, Goexits)
    \<and> chan_buf (fst (doCall_deferred c k g)) = chan_buf g)
 \<and> (lookup g k = None \<longrightarrow>
      Do_wait (ncall g) (doCall_fn (ncall g) Goexit (foldl (join k) (snd (Do_lock k g)) js)) = Goexits
    \<and> snd (Do_call id (ncall g) k Goexit (foldl (join k) (snd (Do_lock k g)) js)) = Goexits
    \<and> chan_buf (fst (Do_call id (ncall g) k Goexit (foldl (join k) (snd (Do_lock k g)) js))) =
        chan_buf (foldl (join k) (snd (Do_lock k g)) js))
 \<and> (ErrGoexit :: ('v, 'e) error_sf) \<noteq> newPanicError v st
 \<and> (ErrGoexit :: ('v, 'e) error_sf) \<noteq> FnError e"
proof (intro conjI impI)
  show "calls (doCall_fn c Goexit g) = (calls g)(c \<mapsto> x\<lparr>c_err := Some ErrGoexit, c_wg := c_wg x - 1\<rparr>)"
    if "calls g c = Some x"
    using that by (simp add: doCall_fn_call)
next
  assume a: "calls g c = Some y \<and> c_err y = Some ErrGoexit"
  show "Do_wait c g = Goexits" if "c_wg y = 0"
    using a that by (simp add: Do_wait_Goexit)
  show d: "doCall_deferred c k g = (if forgotten y then g else delete_key k g, Goexits)"
    using a by (simp add: deferred_Goexit)
  show "chan_buf (fst (doCall_deferred c k g)) = chan_buf g"
    by (simp add: d)
next
  assume n: "lookup g k = None"
  let ?c = "ncall g"
  let ?g1 = "foldl (join k) (snd (Do_lock k g)) js"
  from joins_started [OF n, of js] obtain chs where
    g1: "calls ?g1 ?c = Some (new_call\<lparr>c_wg := 1, dups := of_nat (length js), chans := chs\<rparr>)"
    by blast
  let ?y = "new_call\<lparr>c_wg := 0, dups := of_nat (length js), chans := chs, c_err := Some ErrGoexit\<rparr>"
  let ?g2 = "doCall_fn ?c Goexit ?g1"
  have g2: "calls ?g2 ?c = Some ?y" "chan_buf ?g2 = chan_buf ?g1"
    using g1 by (simp_all add: doCall_fn_call new_call_def)
  show "Do_wait ?c ?g2 = Goexits"
    using Do_wait_Goexit [OF g2(1)] by simp
  have d: "doCall_deferred ?c k ?g2 = (delete_key k ?g2, Goexits)"
    using deferred_Goexit [OF g2(1), of k] by (simp add: new_call_def)
  show "snd (Do_call id ?c k Goexit ?g1) = Goexits"
    by (simp add: Do_call_def d)
  show "chan_buf (fst (Do_call id ?c k Goexit ?g1)) = chan_buf ?g1"
    by (simp add: Do_call_def d g2(2))
next
  show "(ErrGoexit :: ('v, 'e) error_sf) \<noteq> newPanicError v st"
    by (simp add: newPanicError_def Let_def)
  show "(ErrGoexit :: ('v, 'e) error_sf) \<noteq> FnError e" by simp
qed

theorem Goexit_ends_joiners_witness:
  "lookup (zero_SGroup :: (string, string, 64 word) SGroup) ''k'' = None
 \<and> Do_wait 0 (doCall_fn 0 Goexit ex_joined_chan) = Goexits
 \<and> snd (Do_call id 0 ''k'' Goexit ex_joined_chan) = Goexits
 \<and> chan_buf (fst (Do_call id 0 ''k'' Goexit ex_joined_chan)) = (\<lambda>_. [])
 \<and> map_option c_err (calls (doCall_fn 0 Goexit ex_joined_chan) 0) = Some (Some ErrGoexit)"
proof -
  have z: "lookup (zero_SGroup :: (string, string, 64 word) SGroup) ''k'' = None"
    by (simp add: zero_SGroup_def lookup_def)
  have g: "foldl (join ''k'') (snd (Do_lock ''k'' (zero_SGroup :: (string, string, 64 word) SGroup)))
             [True, False] = ex_joined_chan"
    using ex_joins(2) by (simp add: ex_inflight_def)
  have n: "ncall (zero_SGroup :: (string, string, 64 word) SGroup) = 0"
    by (simp add: zero_SGroup_def)
  have c: "calls ex_joined_chan 0 = Some (new_call\<lparr>c_wg := 1, dups := 2, chans := [0]\<rparr>)"
    "chan_buf ex_joined_chan = (\<lambda>_. [])"
    by (simp_all add: ex_joined_chan_eq)
  note a = Goexit_ends_joiners [where g = "zero_SGroup :: (string, string, 64 word) SGroup"
      and k = "''k''" and js = "[True, False]" and c = 0 and x = new_call and y = new_call
      and v = "''v''" and st = "[]" and e = "''e''", unfolded g n]
  note b = Goexit_ends_joiners [where g = ex_joined_chan and c = 0
      and x = "new_call\<lparr>c_wg := 1, dups := 2, chans := [0]\<rparr>" and y = new_call
      and k = "''j''" and js = "[]" and v = "''v''" and st = "[]" and e = "''e''"]
  show ?thesis using a b z c by simp
qed

text \<open>
  C5, as stated, fails: when a caller of \<open>DoChan\<close> joined the call, the panic of the
  function is not re-raised in the goroutine of the caller of \<open>Do\<close> that started the
  call. It is raised in a fresh goroutine and the caller's goroutine parks.
\<close>

theorem Panic_with_chan_counterexample:
  "snd (Do_call id 0 ''k'' (Panic (Some ''boom'') ex_stack) ex_joined_chan) =
     GoPanics (PanicError ''boom'' ''main.fn()'')
 \<and> snd (Do_call id 0 ''k'' (Panic (Some ''boom'') ex_stack) ex_joined_chan) \<noteq>
     Panics (PanicError ''boom'' ''main.fn()'')"
  by (simp add: ex_joined_chan_eq Do_call_def init_m_def lookup_def upd_call_def
      new_call_def delete_key_def doCall_fn_def doCall_deferred_def Do_wait_def ex_stack_trim)

text \<open>
  C5, amended. When the function panics with a non-nil value, the call records a
  \<open>panicError\<close> of that value and the trimmed stack trace. Every joined caller of \<open>Do\<close>
  re-raises that \<open>panicError\<close> in its own goroutine once the counter is zero. The caller
  that started the call re-raises it in its own goroutine when the call has no channel
  (no caller of \<open>DoChan\<close> joined); when it has one, the \<open>panicError\<close> is raised in a fresh
  goroutine and the caller's goroutine parks. Nothing is sent on the channels.
\<close>

theorem Panic_reraised:
  "(calls (g :: ('v, 'e, 'w::len word) SGroup) c = Some x \<longrightarrow>
      calls (doCall_fn c (Panic (Some v) st) g) =
        (calls g)(c \<mapsto> x\<lparr>c_err := Some (newPanicError v st), c_wg := c_wg x - 1\<rparr>))
 \<and> (calls g c = Some y \<and> c_err y = Some (PanicError v st') \<longrightarrow>
      (c_wg y = 0 \<longrightarrow> Do_wait c g = Panics (PanicError v st'))
    \<and> snd (doCall_deferred c k g) =
        (if chans y = [] then Panics (PanicError v st') else GoPanics (PanicError v st'))
    \<and> chan_buf (fst (doCall_deferred c k g)) = chan_buf g)
 \<and> (lookup g k = None \<longrightarrow>
      Do_wait (ncall g)
        (doCall_fn (ncall g) (Panic (Some v) st) (foldl (join k) (snd (Do_lock k g)) js)) =
        Panics (newPanicError v st)
    \<and> snd (Do_call id (ncall g) k (Panic (Some v) st) (foldl (join k) (snd (Do_lock k g)) js)) =
        (if list_all (\<lambda>j. j) js then Panics (newPanicError v st)
         else GoPanics (newPanicError v st)))"
proof (intro conjI impI)
  show "calls (doCall_fn c (Panic (Some v) st) g) =
        (calls g)(c \<mapsto> x\<lparr>c_err := Some (newPanicError v st), c_wg := c_wg x - 1\<rparr>)"
    if "calls g c = Some x"
    using that by (simp add: doCall_fn_call)
next
  assume a: "calls g c = Some y \<and> c_err y = Some (PanicError v st')"
  show "Do_wait c g = Panics (PanicError v st')" if "c_wg y = 0"
    using a that by (simp add: Do_wait_Panic)
  have d: "doCall_deferred c k g =
       (if forgotten y then g else delete_key k g,
        if chans y = [] then Panics (PanicError v st') else GoPanics (PanicError v st'))"
    using a by (simp add: deferred_Panic)
  show "snd (doCall_deferred c k g) =
        (if chans y = [] then Panics (PanicError v st') else GoPanics (PanicError v st'))"
    by (simp add: d)
  show "chan_buf (fst (doCall_deferred c k g)) = chan_buf g"
    by (simp add: d)
next
  assume n: "lookup g k = None"
  let ?c = "ncall g"
  let ?g1 = "foldl (join k) (snd (Do_lock k g)) js"
  from joins_started [OF n, of js] obtain chs where
    g1: "calls ?g1 ?c = Some (new_call\<lparr>c_wg := 1, dups := of_nat (length js), chans := chs\<rparr>)"
    and chs: "length chs = length (filter Not js)"
    by blast
  obtain st' where st': "(newPanicError v st :: ('v, 'e) error_sf) = PanicError v st'"
    using newPanicError_is [of v st] by blast
  let ?y = "new_call\<lparr>c_wg := 0, dups := of_nat (length js), chans := chs,
                     c_err := Some (PanicError v st')\<rparr> :: ('v, 'e, 'w word) call"
  let ?g2 = "doCall_fn ?c (Panic (Some v) st) ?g1"
  have g2: "calls ?g2 ?c = Some ?y"
    using g1 by (simp add: doCall_fn_call new_call_def st')
  show "Do_wait ?c ?g2 = Panics (newPanicError v st)"
    using Do_wait_Panic [OF g2] by (simp add: st')
  have e: "chs = [] \<longleftrightarrow> list_all (\<lambda>j. j) js"
    using chs by (auto simp: list_all_iff filter_empty_conv)
  have d: "doCall_deferred ?c k ?g2 =
       (delete_key k ?g2,
        if chs = [] then Panics (PanicError v st') else GoPanics (PanicError v st'))"
    using deferred_Panic [OF g2, of v st' k] by (simp add: new_call_def)
  show "snd (Do_call id ?c k (Panic (Some v) st) ?g1) =
        (if list_all (\<lambda>j. j) js then Panics (newPanicError v st)
         else GoPanics (newPanicError v st))"
    using e by (simp add: Do_call_def d st')
qed

theorem Panic_reraised_witness:
  "lookup (zero_SGroup :: (string, string, 64 word) SGroup) ''k'' = None
 \<and> Do_wait 0 (doCall_fn 0 (Panic (Some ''boom'') ex_stack) ex_joined) =
     Panics (PanicError ''boom'' ''main.fn()'')
 \<and> snd (Do_call id 0 ''k'' (Panic (Some ''boom'') ex_stack) ex_joined) =
     Panics (PanicError ''boom'' ''main.fn()'')
 \<and> snd (Do_call id 0 ''k'' (Panic (Some ''boom'') ex_stack) ex_inflight) =
     Panics (PanicError ''boom'' ''main.fn()'')"
proof -
  have z: "lookup (zero_SGroup :: (string, string, 64 word) SGroup) ''k'' = None"
    by (simp add: zero_SGroup_def lookup_def)
  have g: "foldl (join ''k'') (snd (Do_lock ''k'' (zero_SGroup :: (string, string, 64 word) SGroup)))
             [True] = ex_joined"
    using ex_joins(1) by (simp add: ex_inflight_def)
  have n: "ncall (zero_SGroup :: (string, string, 64 word) SGroup) = 0"
    by (simp add: zero_SGroup_def)
  note a = Panic_reraised [where g = "zero_SGroup :: (string, string, 64 word) SGroup"
      and k = "''k''" and js = "[True]" and v = "''boom''" and st = ex_stack
      and c = 0 and x = new_call and y = new_call and st' = "[]", unfolded g n]
  note b = Panic_reraised [where g = "zero_SGroup :: (string, string, 64 word) SGroup"
      and k = "''k''" and js = "[]" and v = "''boom''" and st = ex_stack
      and c = 0 and x = new_call and y = new_call and st' = "[]", unfolded n]
  have "snd (Do_call id 0 ''k'' (Panic (Some ''boom'') ex_stack) ex_inflight) =
     Panics (PanicError ''boom'' ''main.fn()'')"
    using b z by (simp add: ex_inflight_def ex_stack_trim)
  then show ?thesis using a z by (simp add: ex_stack_trim)
qed

end
